theory Spec2Isabelle
  imports Main "HOL-Library.FSet" "HOL-Library.Multiset" "HOL-Library.List_Lexorder"
begin

section \<open>Data model of flash\_card.py\<close>

text \<open>
  A Python \<open>str\<close> is a sequence of Unicode code points; it is modelled as the list of
  its code points, so that non-ASCII text (the Chinese definitions of the word lists) is
  one element per character, as \<open>strip\<close> and \<open>==\<close> see it. \<open>str\<close> turns an ASCII
  literal into such a list.
\<close>

type_synonym pystr = "nat list"

definition str :: "string \<Rightarrow> pystr" where
  "str s = map of_char s"

text \<open>
  \<open>str.isspace\<close> per character and \<open>str.strip()\<close>: the code points CPython treats
  as whitespace are removed from both ends.
\<close>

definition isspace :: "nat \<Rightarrow> bool" where
  "isspace c \<longleftrightarrow>
     (9 \<le> c \<and> c \<le> 13) \<or> (28 \<le> c \<and> c \<le> 32) \<or> c = 133 \<or> c = 160 \<or> c = 5760 \<or>
     (8192 \<le> c \<and> c \<le> 8202) \<or> c = 8232 \<or> c = 8233 \<or> c = 8239 \<or> c = 8287 \<or> c = 12288"

definition strip :: "pystr \<Rightarrow> pystr" where
  "strip s = rev (dropWhile isspace (rev (dropWhile isspace s)))"

text \<open>
  \<open>str.lower()\<close> on the ASCII letters. The program compares the result only with
  \<open>'q'\<close> and \<open>'n'\<close>, and no code point outside \<open>Q q N n\<close> lower-cases to one of them,
  so the two comparisons agree with Python's on every string.
\<close>

definition lower :: "pystr \<Rightarrow> pystr" where
  "lower s = map (\<lambda>c. if 65 \<le> c \<and> c \<le> 90 then c + 32 else c) s"

text \<open>The dictionaries \<open>{'word': ..., 'definition': ...}\<close> built by \<open>load_words\<close>.\<close>

record word_entry =
  word :: pystr
  definition' :: pystr

text \<open>Exceptions are values; a function that may raise returns \<open>py_error + 'a\<close>.\<close>

datatype py_error = OSError | ValueError | IndexError | TypeError

subsection \<open>The files\<close>

text \<open>
  A word list file, as \<open>load_words\<close> meets it: it does not exist, it exists and
  \<open>open\<close> raises, or \<open>csv.reader\<close> iterates over it. The iteration yields rows
  (lists of column strings; a blank line is the empty row) and may raise part-way
  (a decoding or CSV error).
\<close>

datatype csv_item = Row "pystr list" | Raise py_error

datatype csv_source = Missing | OpenError py_error | Reader "csv_item list"

text \<open>
  \<open>progress.json\<close>: absent, present but not loadable (\<open>open\<close> or \<open>json.load\<close>
  raises), or a JSON document, whose root is an object or something else. The values
  of an object are taken to be arrays of strings, the format of line 41 of the source
  and of every \<open>json.dump\<close> of the program; \<open>json.dump\<close> followed by \<open>json.load\<close>
  is taken to give back such a dictionary unchanged, so the file holds the dictionary
  itself.
\<close>

type_synonym progress = "pystr \<rightharpoonup> pystr list"

datatype json_root = NotDict | Dict progress

datatype disk_file = Absent | Unloadable py_error | Json json_root

text \<open>
  What the operating system does at the \<open>open(progress_file, "w")\<close> and \<open>json.dump\<close>
  of \<open>save_progress\<close>: the write succeeds, \<open>open\<close> raises (the file is untouched), or
  the dump raises after the file was truncated, leaving some content behind.
\<close>

datatype io_outcome = IoOk | OpenFails py_error | DumpFails py_error disk_file

subsection \<open>The module's globals and its environment\<close>

record state =
  progress_data :: progress
  current_list :: pystr
  words :: "word_entry list"
  remembered_words :: "pystr fset"
  current :: "word_entry option"
  round_list :: "word_entry list"
  revealed :: bool
  disk :: disk_file

text \<open>
  What one operation takes from outside the program: the permutation
  \<open>random.shuffle\<close> produces, the iteration order of \<open>list(remembered_words)\<close>, the
  outcome of the write in \<open>save_progress\<close>, the answer to \<open>messagebox.askyesno\<close>, and
  the word list files by name.
\<close>

record env =
  shuffle :: "word_entry list \<Rightarrow> word_entry list"
  listing :: "pystr fset \<Rightarrow> pystr list"
  write_outcome :: io_outcome
  askyesno :: bool
  csv_files :: "pystr \<Rightarrow> csv_source"

definition is_shuffle :: "(word_entry list \<Rightarrow> word_entry list) \<Rightarrow> bool" where
  "is_shuffle sh \<longleftrightarrow> (\<forall>xs. mset (sh xs) = mset xs)"

definition is_listing :: "(pystr fset \<Rightarrow> pystr list) \<Rightarrow> bool" where
  "is_listing ls \<longleftrightarrow> (\<forall>S. fset_of_list (ls S) = S \<and> distinct (ls S))"

definition env_ok :: "env \<Rightarrow> bool" where
  "env_ok e \<longleftrightarrow> is_shuffle (shuffle e) \<and> is_listing (listing e)"

record event =
  keysym :: pystr
  char :: pystr

section \<open>Loading and saving\<close>

text \<open>
  The \<open>for row in reader\<close> loop of \<open>load_words\<close>: the list \<open>words\<close> as the loop
  leaves it, and the exception that ended the loop, if one did.
\<close>

fun read_rows :: "csv_item list \<Rightarrow> word_entry list \<Rightarrow> word_entry list \<times> py_error option" where
  "read_rows [] acc = (acc, None)"
| "read_rows (Raise x # rest) acc = (acc, Some x)"
| "read_rows (Row row # rest) acc =
     (if row = [] then read_rows rest acc
      else read_rows rest
             (acc @ [\<lparr>word = strip (row ! 0),
                     definition' = (if length row > 1 then strip (row ! 1) else [])\<rparr>]))"

definition load_words :: "csv_source \<Rightarrow> py_error + word_entry list" where
  "load_words src =
     (case src of
        Missing \<Rightarrow> Inr []
      | OpenError x \<Rightarrow> Inr []
      | Reader items \<Rightarrow>
          (case read_rows items [] of
             (ws, None) \<Rightarrow> Inr ws
           | (ws, Some x) \<Rightarrow> Inr ws))"

definition exists :: "disk_file \<Rightarrow> bool" where
  "exists f \<longleftrightarrow> f \<noteq> Absent"

definition json_load :: "disk_file \<Rightarrow> py_error + json_root" where
  "json_load f = (case f of Absent \<Rightarrow> Inl OSError | Unloadable x \<Rightarrow> Inl x | Json v \<Rightarrow> Inr v)"

text \<open>\<open>load_progress\<close> returns the global \<open>progress_data\<close> it has just set.\<close>

definition load_progress :: "state \<Rightarrow> py_error + state" where
  "load_progress s =
     (let s1 =
        (if exists (disk s) then
           (case json_load (disk s) of
              Inr loaded \<Rightarrow>
                (case loaded of
                   NotDict \<Rightarrow> s\<lparr>progress_data := Map.empty\<rparr>
                 | Dict d \<Rightarrow> s\<lparr>progress_data := d\<rparr>)
            | Inl x \<Rightarrow> s\<lparr>progress_data := Map.empty\<rparr>)
         else s\<lparr>progress_data := Map.empty\<rparr>)
      in Inr (if progress_data s1 (current_list s1) = None
              then s1\<lparr>progress_data := (progress_data s1)(current_list s1 \<mapsto> [])\<rparr>
              else s1))"

definition save_progress :: "io_outcome \<Rightarrow> state \<Rightarrow> py_error + state" where
  "save_progress io s =
     (case io of
        IoOk \<Rightarrow> Inr (s\<lparr>disk := Json (Dict (progress_data s))\<rparr>)
      | OpenFails x \<Rightarrow> Inr s
      | DumpFails x f \<Rightarrow> Inr (s\<lparr>disk := f\<rparr>))"

section \<open>The word logic\<close>

text \<open>
  \<open>list.pop(0)\<close> raises \<open>IndexError\<close> on the empty list. \<open>get_new_word\<close> takes the
  permutation that its \<open>random.shuffle\<close> produces as an argument.
\<close>

definition pop0 :: "'a list \<Rightarrow> py_error + ('a \<times> 'a list)" where
  "pop0 xs = (case xs of [] \<Rightarrow> Inl IndexError | x # rest \<Rightarrow> Inr (x, rest))"

definition get_new_word :: "(word_entry list \<Rightarrow> word_entry list) \<Rightarrow> state \<Rightarrow> py_error + state" where
  "get_new_word sh s =
     (let s1 = s\<lparr>round_list := filter (\<lambda>w. word w |\<notin>| remembered_words s) (round_list s)\<rparr>;
          s2 = (if round_list s1 = []
                then s1\<lparr>round_list := sh (filter (\<lambda>w. word w |\<notin>| remembered_words s1) (words s1))\<rparr>
                else s1)
      in if round_list s2 = [] then Inr (s2\<lparr>current := None, revealed := False\<rparr>)
         else (case pop0 (round_list s2) of
                 Inl x \<Rightarrow> Inl x
               | Inr (w, rest) \<Rightarrow> Inr (s2\<lparr>current := Some w, round_list := rest, revealed := False\<rparr>)))"

text \<open>Sequencing: an exception of the first call ends the caller.\<close>

definition and_then :: "py_error + 'a \<Rightarrow> ('a \<Rightarrow> py_error + 'b) \<Rightarrow> py_error + 'b" where
  "and_then r f = (case r of Inl x \<Rightarrow> Inl x | Inr v \<Rightarrow> f v)"

definition reset_current :: "env \<Rightarrow> state \<Rightarrow> py_error + state" where
  "reset_current e s =
     (if askyesno e then
        (let s1 = s\<lparr>remembered_words := {||}\<rparr>;
             s2 = s1\<lparr>progress_data := (progress_data s1)(current_list s1 \<mapsto> [])\<rparr>
         in and_then (save_progress (write_outcome e) s2)
              (\<lambda>s3. get_new_word (shuffle e) (s3\<lparr>round_list := shuffle e (words s3)\<rparr>)))
      else Inr s)"

definition reset_all :: "env \<Rightarrow> state \<Rightarrow> py_error + state" where
  "reset_all e s =
     (if askyesno e then
        (let s1 = s\<lparr>progress_data :=
                      (\<lambda>key. case progress_data s key of None \<Rightarrow> None | Some v \<Rightarrow> Some [])\<rparr>;
             s2 = s1\<lparr>remembered_words := {||}\<rparr>
         in and_then (save_progress (write_outcome e) s2)
              (\<lambda>s3. get_new_word (shuffle e) (s3\<lparr>round_list := shuffle e (words s3)\<rparr>)))
      else Inr s)"

text \<open>
  \<open>root.destroy()\<close> closes the window and \<open>update_display\<close> only writes the labels
  from the globals; neither changes a global, and both are left out. The answer to
  \<open>messagebox.askyesno\<close> in the resets comes from the environment.
\<close>

definition on_key_press :: "env \<Rightarrow> event \<Rightarrow> state \<Rightarrow> py_error + state" where
  "on_key_press e ev s =
     (if lower (keysym ev) = str ''q'' then Inr s
      else if keysym ev = str ''Return'' then
        (case current s of
           None \<Rightarrow> Inr s
         | Some c \<Rightarrow> if \<not> revealed s then Inr (s\<lparr>revealed := True\<rparr>)
                     else get_new_word (shuffle e) s)
      else if keysym ev = str ''space'' then
        (case current s of
           None \<Rightarrow> Inr s
         | Some c \<Rightarrow>
             (let s1 = s\<lparr>remembered_words := finsert (word c) (remembered_words s)\<rparr>;
                  s2 = s1\<lparr>progress_data :=
                            (progress_data s1)(current_list s1 \<mapsto> listing e (remembered_words s1))\<rparr>
              in save_progress (write_outcome e) s2))
      else if lower (char ev) = str ''n'' then
        (case current s of
           None \<Rightarrow> Inr s
         | Some c \<Rightarrow> if revealed s then get_new_word (shuffle e) s else Inr s)
      else if char ev = str ''r'' then reset_current e s
      else if char ev = str ''R'' then reset_all e s
      else Inr s)"

definition csv_name :: "pystr \<Rightarrow> pystr" where
  "csv_name l = str ''vocabulary_csv/'' @ l @ str ''.csv''"

definition progress_get :: "state \<Rightarrow> pystr list" where
  "progress_get s = (case progress_data s (current_list s) of None \<Rightarrow> [] | Some v \<Rightarrow> v)"

definition on_list_change :: "env \<Rightarrow> pystr \<Rightarrow> state \<Rightarrow> py_error + state" where
  "on_list_change e new_value s =
     (let s1 = s\<lparr>current_list := new_value\<rparr>
      in and_then (load_words (csv_files e (csv_name (current_list s1))))
           (\<lambda>ws.
              let s2 = s1\<lparr>words := ws\<rparr>;
                  s3 = (if progress_data s2 (current_list s2) = None
                        then s2\<lparr>progress_data := (progress_data s2)(current_list s2 \<mapsto> [])\<rparr>
                        else s2);
                  s4 = s3\<lparr>remembered_words := fset_of_list (progress_get s3)\<rparr>;
                  s5 = s4\<lparr>round_list :=
                            shuffle e (filter (\<lambda>w. word w |\<notin>| remembered_words s4) (words s4))\<rparr>
              in get_new_word (shuffle e) s5))"

text \<open>The globals as the module body leaves them, with the progress file found on disk.\<close>

definition initial :: "disk_file \<Rightarrow> state" where
  "initial f =
     \<lparr>progress_data = Map.empty, current_list = str ''list1'', words = [],
      remembered_words = {||}, current = None, round_list = [], revealed = False, disk = f\<rparr>"

text \<open>\<open>main\<close> up to the creation of the window; the rest of it builds widgets.\<close>

definition main :: "env \<Rightarrow> state \<Rightarrow> py_error + state" where
  "main e s =
     and_then (load_progress s)
       (\<lambda>s1. and_then (load_words (csv_files e (csv_name (current_list s1))))
          (\<lambda>ws.
             let s2 = s1\<lparr>words := ws\<rparr>;
                 s3 = s2\<lparr>remembered_words :=
                           remembered_words s2 |\<union>| fset_of_list (progress_get s2)\<rparr>;
                 s4 = s3\<lparr>round_list :=
                           shuffle e (filter (\<lambda>w. word w |\<notin>| remembered_words s3) (words s3))\<rparr>
             in get_new_word (shuffle e) s4))"

subsection \<open>What the user can do\<close>

text \<open>
  A key press, the two buttons (bound to \<open>reset_current\<close> and \<open>reset_all\<close>) and the
  list menu (bound to \<open>on_list_change\<close>).
\<close>

datatype action = Key event | Update_button | Update_all_button | Select_list pystr

fun perform :: "env \<Rightarrow> action \<Rightarrow> state \<Rightarrow> py_error + state" where
  "perform e (Key ev) s = on_key_press e ev s"
| "perform e Update_button s = reset_current e s"
| "perform e Update_all_button s = reset_all e s"
| "perform e (Select_list l) s = on_list_change e l s"

fun run :: "(env \<times> action) list \<Rightarrow> state \<Rightarrow> py_error + state" where
  "run [] s = Inr s"
| "run ((e, a) # rest) s = and_then (perform e a s) (run rest)"

inductive reachable :: "state \<Rightarrow> bool" where
  start: "env_ok e \<Longrightarrow> main e (initial f) = Inr s \<Longrightarrow> reachable s"
| step: "reachable s \<Longrightarrow> env_ok e \<Longrightarrow> perform e a s = Inr s' \<Longrightarrow> reachable s'"

section \<open>Auxiliary notions for the proofs\<close>

text \<open>
  The queue \<open>get_new_word\<close> pops from: the round queue without the remembered entries,
  or a fresh shuffle of the unremembered entries of \<open>words\<close> when that is empty.
\<close>

definition next_queue :: "(word_entry list \<Rightarrow> word_entry list) \<Rightarrow> state \<Rightarrow> word_entry list" where
  "next_queue sh s =
     (let q = filter (\<lambda>w. word w |\<notin>| remembered_words s) (round_list s)
      in if q = [] then sh (filter (\<lambda>w. word w |\<notin>| remembered_words s) (words s)) else q)"

text \<open>
  The state in which \<open>main\<close>, \<open>on_list_change\<close> and the resets call
  \<open>get_new_word\<close>: the round queue has just been built from \<open>words\<close>.
\<close>

definition fresh_round :: "env \<Rightarrow> state \<Rightarrow> bool" where
  "fresh_round e s \<longleftrightarrow>
     round_list s = shuffle e (filter (\<lambda>w. word w |\<notin>| remembered_words s) (words s))"

text \<open>
  The file as \<open>save_progress\<close> leaves it, and the list \<open>load_words\<close> returns: both
  functions always return, and the proofs use them in this form.
\<close>

definition disk_after :: "io_outcome \<Rightarrow> state \<Rightarrow> disk_file" where
  "disk_after io s =
     (case io of IoOk \<Rightarrow> Json (Dict (progress_data s)) | OpenFails x \<Rightarrow> disk s | DumpFails x f \<Rightarrow> f)"

definition rows_read :: "csv_source \<Rightarrow> word_entry list" where
  "rows_read src = (case src of Reader items \<Rightarrow> fst (read_rows items []) | _ \<Rightarrow> [])"

text \<open>
  Every entry of \<open>words\<close> is remembered (true of the empty list). The invariant of the
  reachable states: the round queue holds entries of \<open>words\<close>; \<open>current\<close> is absent
  only when every entry is remembered; \<open>current\<close>, when present, is an entry of
  \<open>words\<close>; and when the word strings of \<open>words\<close> are pairwise distinct, so are those of
  the queue, and the word of \<open>current\<close> is not among them.
\<close>

definition all_remembered :: "state \<Rightarrow> bool" where
  "all_remembered s \<longleftrightarrow> (\<forall>w \<in> set (words s). word w |\<in>| remembered_words s)"

definition queue_ok :: "state \<Rightarrow> bool" where
  "queue_ok s \<longleftrightarrow>
     set (round_list s) \<subseteq> set (words s) \<and>
     (distinct (map word (words s)) \<longrightarrow> distinct (map word (round_list s)))"

definition round_inv :: "state \<Rightarrow> bool" where
  "round_inv s \<longleftrightarrow>
     queue_ok s \<and>
     (current s = None \<longrightarrow> all_remembered s) \<and>
     (\<forall>c. current s = Some c \<longrightarrow>
        c \<in> set (words s) \<and>
        (distinct (map word (words s)) \<longrightarrow> word c \<notin> word ` set (round_list s)))"

text \<open>
  The actions that clear the remembered set: a reset the user confirms (the \<open>r\<close> and
  \<open>R\<close> keys, when the press reaches their branch of \<open>on_key_press\<close>, and the two
  buttons) and a switch of list.
\<close>

fun clears :: "env \<Rightarrow> action \<Rightarrow> bool" where
  "clears e (Key ev) \<longleftrightarrow>
     askyesno e \<and> lower (keysym ev) \<noteq> str ''q'' \<and> keysym ev \<noteq> str ''Return'' \<and>
     keysym ev \<noteq> str ''space'' \<and> lower (char ev) \<noteq> str ''n'' \<and>
     (char ev = str ''r'' \<or> char ev = str ''R'')"
| "clears e Update_button \<longleftrightarrow> askyesno e"
| "clears e Update_all_button \<longleftrightarrow> askyesno e"
| "clears e (Select_list l) \<longleftrightarrow> True"

text \<open>
  The actions that call \<open>get_new_word\<close>, read off the branches of \<open>on_key_press\<close>
  and the callbacks: Return or \<open>n\<close> with \<open>current\<close> present and the definition revealed,
  a reset the user confirms, and a switch of list.
\<close>

fun advancing :: "env \<Rightarrow> action \<Rightarrow> state \<Rightarrow> bool" where
  "advancing e (Key ev) s \<longleftrightarrow>
     lower (keysym ev) \<noteq> str ''q'' \<and>
     (if keysym ev = str ''Return'' then current s \<noteq> None \<and> revealed s
      else if keysym ev = str ''space'' then False
      else if lower (char ev) = str ''n'' then current s \<noteq> None \<and> revealed s
      else (char ev = str ''r'' \<or> char ev = str ''R'') \<and> askyesno e)"
| "advancing e Update_button s \<longleftrightarrow> askyesno e"
| "advancing e Update_all_button s \<longleftrightarrow> askyesno e"
| "advancing e (Select_list l) s \<longleftrightarrow> True"

text \<open>
  A round, as the sequence of calls that matter to it: \<open>get_new_word\<close> (from the Return
  or the \<open>n\<close> key, with the permutation its shuffle would produce) and presses of the
  space key. \<open>round_run\<close> returns the values \<open>current\<close> took at the advances, in order,
  and the final state. Revealing a definition changes only \<open>revealed\<close>, which
  \<open>get_new_word\<close> does not read, and is left out.
\<close>

datatype round_step = Advance "word_entry list \<Rightarrow> word_entry list" | Mark env

fun is_advance :: "round_step \<Rightarrow> bool" where
  "is_advance (Advance sh) = True"
| "is_advance (Mark e) = False"

fun round_run :: "round_step list \<Rightarrow> state \<Rightarrow> py_error + (word_entry option list \<times> state)" where
  "round_run [] s = Inr ([], s)"
| "round_run (Advance sh # rest) s =
     and_then (get_new_word sh s)
       (\<lambda>s1. and_then (round_run rest s1) (\<lambda>(shown, s2). Inr (current s1 # shown, s2)))"
| "round_run (Mark e # rest) s =
     and_then (on_key_press e \<lparr>keysym = str ''space'', char = str '' ''\<rparr> s) (round_run rest)"

text \<open>
  The entry of a row in the words of the specification: the first column trimmed as
  the word, the second column trimmed as the definition, the empty string when there
  is no second column.
\<close>

definition row_entry :: "pystr list \<Rightarrow> word_entry" where
  "row_entry row =
     \<lparr>word = strip (hd row),
      definition' = (case tl row of [] \<Rightarrow> [] | second # others \<Rightarrow> strip second)\<rparr>"

section \<open>Example data\<close>

text \<open>
  The word list of the scenario in the specification: \<open>cat\<close> and \<open>dog\<close> with their
  Chinese definitions (code points 29483 and 29399), in a file with a blank line and
  with white space around the definitions; an environment whose shuffle keeps the order
  and whose writes succeed; and the state \<open>main\<close> reaches on it.
\<close>

definition cat :: word_entry where
  "cat = \<lparr>word = str ''cat'', definition' = [29483]\<rparr>"

definition dog :: word_entry where
  "dog = \<lparr>word = str ''dog'', definition' = [29399]\<rparr>"

definition list1_rows :: "csv_item list" where
  "list1_rows = [Row [str ''cat'', [32, 29483]], Row [], Row [str ''dog'', [29399, 12288]]]"

definition env0 :: env where
  "env0 = \<lparr>shuffle = (\<lambda>xs. xs), listing = sorted_list_of_fset, write_outcome = IoOk,
            askyesno = True,
            csv_files = (\<lambda>name. if name = csv_name (str ''list1'') then Reader list1_rows else Missing)\<rparr>"

definition return_key :: event where
  "return_key = \<lparr>keysym = str ''Return'', char = [13]\<rparr>"

definition space_key :: event where
  "space_key = \<lparr>keysym = str ''space'', char = str '' ''\<rparr>"

definition n_key :: event where
  "n_key = \<lparr>keysym = str ''n'', char = str ''n''\<rparr>"

definition two_words :: state where
  "two_words =
     \<lparr>progress_data = [str ''list1'' \<mapsto> []], current_list = str ''list1'', words = [cat, dog],
      remembered_words = {||}, current = Some cat, round_list = [dog], revealed = False,
      disk = Absent\<rparr>"

text \<open>The example after \<open>cat\<close> has been marked remembered (space key).\<close>

definition marked :: state where
  "marked =
     \<lparr>progress_data = [str ''list1'' \<mapsto> [str ''cat'']], current_list = str ''list1'',
      words = [cat, dog], remembered_words = {|str ''cat''|}, current = Some cat,
      round_list = [dog], revealed = False, disk = Json (Dict [str ''list1'' \<mapsto> [str ''cat'']])\<rparr>"

text \<open>
  The example after \<open>cat\<close> was marked, \<open>dog\<close> was shown and \<open>dog\<close> was marked too; an
  environment whose shuffle reverses the list; and the example at the end of its first
  round, with the definition of \<open>dog\<close> revealed.
\<close>

definition both_marked :: state where
  "both_marked =
     \<lparr>progress_data = [str ''list1'' \<mapsto> [str ''cat'', str ''dog'']], current_list = str ''list1'',
      words = [cat, dog], remembered_words = {|str ''cat'', str ''dog''|}, current = Some dog,
      round_list = [], revealed = False,
      disk = Json (Dict [str ''list1'' \<mapsto> [str ''cat'', str ''dog'']])\<rparr>"

definition env_rev :: env where
  "env_rev = env0\<lparr>shuffle := rev\<rparr>"

definition end_of_round :: state where
  "end_of_round = two_words\<lparr>current := Some dog, round_list := [], revealed := True\<rparr>"

text \<open>
  A word list with the word \<open>cat\<close> in two rows, with different definitions; the state
  in which \<open>main\<close> calls \<open>get_new_word\<close> on it (the queue built, nothing shown yet);
  and the state at the end of the round in which \<open>cat\<close> was marked.
\<close>

definition cat_b :: word_entry where
  "cat_b = \<lparr>word = str ''cat'', definition' = [23567, 29483]\<rparr>"

definition env_dup :: env where
  "env_dup = env0\<lparr>shuffle := id, csv_files := (\<lambda>name. if name = csv_name (str ''list1'')
       then Reader [Row [str ''cat'', [29483]], Row [str ''cat'', [23567, 29483]],
                    Row [str ''dog'', [29399]]]
       else Missing)\<rparr>"

definition dup_fresh :: state where
  "dup_fresh =
     \<lparr>progress_data = [str ''list1'' \<mapsto> []], current_list = str ''list1'',
      words = [cat, cat_b, dog], remembered_words = {||}, current = None,
      round_list = [cat, cat_b, dog], revealed = False, disk = Absent\<rparr>"

definition dup_end :: state where
  "dup_end =
     \<lparr>progress_data = [str ''list1'' \<mapsto> [str ''cat'']], current_list = str ''list1'',
      words = [cat, cat_b, dog], remembered_words = {|str ''cat''|}, current = Some dog,
      round_list = [], revealed = False, disk = Json (Dict [str ''list1'' \<mapsto> [str ''cat'']])\<rparr>"

text \<open>
  A state whose store has an entry for \<open>list2\<close> only (the one word U+732B), while
  \<open>list1\<close> is the active list.
\<close>

definition list2_only :: state where
  "list2_only = (initial Absent)\<lparr>progress_data := [str ''list2'' \<mapsto> [[29483]]]\<rparr>"

section \<open>Basic facts\<close>

lemma get_new_word_eq:
  "get_new_word sh s =
     Inr (s\<lparr>round_list := tl (next_queue sh s),
            current := (case next_queue sh s of [] \<Rightarrow> None | w # rest \<Rightarrow> Some w),
            revealed := False\<rparr>)"
  by (simp add: get_new_word_def next_queue_def pop0_def Let_def split: list.splits)

lemma is_shuffle_set: "is_shuffle sh \<Longrightarrow> set (sh xs) = set xs"
  by (metis is_shuffle_def set_mset_mset)

lemma is_shuffle_Nil: "is_shuffle sh \<Longrightarrow> sh xs = [] \<longleftrightarrow> xs = []"
  by (metis is_shuffle_def mset_zero_iff)

lemma save_progress_eq: "save_progress io s = Inr (s\<lparr>disk := disk_after io s\<rparr>)"
  by (cases io) (simp_all add: save_progress_def disk_after_def)

lemma load_words_eq: "load_words src = Inr (rows_read src)"
  by (auto simp: load_words_def rows_read_def split: csv_source.splits prod.splits option.splits)

lemma reset_current_cases:
  assumes "reset_current e s = Inr s'"
  shows "s' = s \<or> (\<exists>s0. get_new_word (shuffle e) s0 = Inr s' \<and> fresh_round e s0)"
proof (cases "askyesno e")
  case False
  with assms show ?thesis by (simp add: reset_current_def)
next
  case True
  let ?s2 = "s\<lparr>remembered_words := {||}, progress_data := (progress_data s)(current_list s \<mapsto> [])\<rparr>"
  let ?s0 = "?s2\<lparr>disk := disk_after (write_outcome e) ?s2, round_list := shuffle e (words s)\<rparr>"
  have "get_new_word (shuffle e) ?s0 = Inr s'"
    using assms True by (simp add: reset_current_def and_then_def Let_def save_progress_eq)
  moreover have "fresh_round e ?s0" by (simp add: fresh_round_def)
  ultimately show ?thesis by blast
qed

lemma reset_all_cases:
  assumes "reset_all e s = Inr s'"
  shows "s' = s \<or> (\<exists>s0. get_new_word (shuffle e) s0 = Inr s' \<and> fresh_round e s0)"
proof (cases "askyesno e")
  case False
  with assms show ?thesis by (simp add: reset_all_def)
next
  case True
  let ?s2 = "s\<lparr>progress_data := \<lambda>key. case progress_data s key of None \<Rightarrow> None | Some v \<Rightarrow> Some [],
               remembered_words := {||}\<rparr>"
  let ?s0 = "?s2\<lparr>disk := disk_after (write_outcome e) ?s2, round_list := shuffle e (words s)\<rparr>"
  have "get_new_word (shuffle e) ?s0 = Inr s'"
    using assms True by (simp add: reset_all_def and_then_def Let_def save_progress_eq)
  moreover have "fresh_round e ?s0" by (simp add: fresh_round_def)
  ultimately show ?thesis by blast
qed

lemma on_list_change_cases:
  assumes "on_list_change e l s = Inr s'"
  shows "\<exists>s0. get_new_word (shuffle e) s0 = Inr s' \<and> fresh_round e s0"
  using assms
  by (auto simp: on_list_change_def and_then_def Let_def fresh_round_def load_words_eq intro!: exI)

lemma on_key_press_cases:
  assumes "on_key_press e ev s = Inr s'"
  shows "s' = s
    \<or> (current s \<noteq> None \<and> s' = s\<lparr>revealed := True\<rparr>)
    \<or> (\<exists>c d. current s = Some c \<and>
          s' = s\<lparr>remembered_words := finsert (word c) (remembered_words s),
                 progress_data := (progress_data s)
                    (current_list s \<mapsto> listing e (finsert (word c) (remembered_words s))),
                 disk := d\<rparr>)
    \<or> (\<exists>s0. get_new_word (shuffle e) s0 = Inr s' \<and> (s0 = s \<or> fresh_round e s0))"
proof -
  consider (quit) "lower (keysym ev) = str ''q''"
    | (ret) "lower (keysym ev) \<noteq> str ''q''" "keysym ev = str ''Return''"
    | (space) "lower (keysym ev) \<noteq> str ''q''" "keysym ev \<noteq> str ''Return''" "keysym ev = str ''space''"
    | (other) "lower (keysym ev) \<noteq> str ''q''" "keysym ev \<noteq> str ''Return''" "keysym ev \<noteq> str ''space''"
    by blast
  then show ?thesis
  proof cases
    case quit
    with assms show ?thesis by (simp add: on_key_press_def)
  next
    case ret
    with assms show ?thesis
      by (cases "current s") (auto simp: on_key_press_def split: if_splits)
  next
    case space
    with assms show ?thesis
      by (cases "current s") (auto simp: on_key_press_def Let_def save_progress_eq)
  next
    case other
    show ?thesis
    proof (cases "lower (char ev) = str ''n''")
      case True
      with assms other show ?thesis
        by (cases "current s") (auto simp: on_key_press_def split: if_splits)
    next
      case False
      with assms other have "reset_current e s = Inr s' \<or> reset_all e s = Inr s' \<or> s' = s"
        by (auto simp: on_key_press_def split: if_splits)
      then show ?thesis
        using reset_current_cases reset_all_cases by blast
    qed
  qed
qed

lemma perform_cases:
  assumes "perform e a s = Inr s'"
  shows "s' = s
    \<or> (current s \<noteq> None \<and> s' = s\<lparr>revealed := True\<rparr>)
    \<or> (\<exists>c d. current s = Some c \<and>
          s' = s\<lparr>remembered_words := finsert (word c) (remembered_words s),
                 progress_data := (progress_data s)
                    (current_list s \<mapsto> listing e (finsert (word c) (remembered_words s))),
                 disk := d\<rparr>)
    \<or> (\<exists>s0. get_new_word (shuffle e) s0 = Inr s' \<and> (s0 = s \<or> fresh_round e s0))"
proof (cases a)
  case (Key ev)
  with assms show ?thesis using on_key_press_cases by simp
next
  case Update_button
  with assms show ?thesis using reset_current_cases by (simp, blast)
next
  case Update_all_button
  with assms show ?thesis using reset_all_cases by (simp, blast)
next
  case (Select_list l)
  with assms show ?thesis using on_list_change_cases by (simp, blast)
qed

lemma main_cases:
  assumes "main e (initial f) = Inr s'"
  shows "\<exists>s0. get_new_word (shuffle e) s0 = Inr s' \<and> fresh_round e s0"
proof -
  obtain s1 where s1: "load_progress (initial f) = Inr s1"
    by (simp add: load_progress_def Let_def)
  have "remembered_words s1 = {||}"
    using s1 by (auto simp: load_progress_def initial_def Let_def split: if_splits sum.splits json_root.splits)
  then show ?thesis
    using assms s1
    by (auto simp: main_def and_then_def Let_def fresh_round_def load_words_eq intro!: exI)
qed

lemma perform_total: "\<exists>s'. perform e a s = Inr s'"
  by (cases a)
     (auto simp: on_key_press_def reset_current_def reset_all_def on_list_change_def
        get_new_word_eq save_progress_eq load_words_eq and_then_def Let_def split: option.splits)

lemma get_new_word_frame:
  assumes "get_new_word sh s = Inr s'"
  shows "words s' = words s" "remembered_words s' = remembered_words s"
    "progress_data s' = progress_data s" "disk s' = disk s" "current_list s' = current_list s"
    "revealed s' = False"
  using assms by (auto simp: get_new_word_eq)

lemma next_queue_unremembered:
  assumes "is_shuffle sh" "w \<in> set (next_queue sh s)"
  shows "word w |\<notin>| remembered_words s"
  using assms by (auto simp: next_queue_def Let_def is_shuffle_set split: if_splits)

lemma next_queue_subset:
  assumes "is_shuffle sh" "set (round_list s) \<subseteq> set (words s)"
  shows "set (next_queue sh s) \<subseteq> set (words s)"
  using assms by (auto simp: next_queue_def Let_def is_shuffle_set split: if_splits)

lemma next_queue_Nil:
  assumes "is_shuffle sh" "set (round_list s) \<subseteq> set (words s)"
  shows "next_queue sh s = [] \<longleftrightarrow> all_remembered s"
  using assms
  by (auto simp: next_queue_def Let_def is_shuffle_Nil all_remembered_def filter_empty_conv)

lemma is_shuffle_distinct:
  assumes "is_shuffle sh" "distinct (map f xs)"
  shows "distinct (map f (sh xs))"
proof -
  have "mset (map f (sh xs)) = mset (map f xs)"
    using assms(1) by (metis is_shuffle_def mset_map)
  then show ?thesis
    using assms(2) by (metis mset_eq_imp_distinct_iff)
qed

lemma next_queue_distinct:
  assumes "is_shuffle sh" "queue_ok s" "distinct (map word (words s))"
  shows "distinct (map word (next_queue sh s))"
  using assms
  by (auto simp: next_queue_def Let_def queue_ok_def is_shuffle_distinct distinct_map_filter)

lemma get_new_word_inv:
  assumes "is_shuffle sh" "queue_ok s" "get_new_word sh s = Inr s'"
  shows "round_inv s'"
proof -
  let ?q = "next_queue sh s"
  have s': "s' = s\<lparr>round_list := tl ?q,
            current := (case ?q of [] \<Rightarrow> None | w # rest \<Rightarrow> Some w), revealed := False\<rparr>"
    using assms(3) by (simp add: get_new_word_eq)
  have sub: "set ?q \<subseteq> set (words s)"
    using assms(1,2) by (simp add: next_queue_subset queue_ok_def)
  have nil: "?q = [] \<longleftrightarrow> all_remembered s"
    using assms(1,2) by (simp add: next_queue_Nil queue_ok_def)
  have dist: "distinct (map word (words s)) \<Longrightarrow> distinct (map word ?q)"
    using assms(1,2) by (simp add: next_queue_distinct)
  show ?thesis
  proof (cases ?q)
    case Nil
    with s' nil show ?thesis
      by (simp add: round_inv_def queue_ok_def all_remembered_def)
  next
    case (Cons w rest)
    with s' sub dist show ?thesis
      by (auto simp: round_inv_def queue_ok_def all_remembered_def)
  qed
qed

lemma fresh_round_queue_ok:
  assumes "is_shuffle (shuffle e)" "fresh_round e s"
  shows "queue_ok s"
  using assms
  by (auto simp: fresh_round_def queue_ok_def is_shuffle_set is_shuffle_distinct distinct_map_filter)

lemma reachable_round_inv: "reachable s \<Longrightarrow> round_inv s"
proof (induction rule: reachable.induct)
  case (start e f s)
  then show ?case
    using main_cases get_new_word_inv fresh_round_queue_ok by (metis env_ok_def)
next
  case (step s e a s')
  from perform_cases[OF step.hyps(3)]
  consider (same) "s' = s"
    | (rev) "current s \<noteq> None" "s' = s\<lparr>revealed := True\<rparr>"
    | (mark) c d where "current s = Some c"
        "s' = s\<lparr>remembered_words := finsert (word c) (remembered_words s),
                 progress_data := (progress_data s)
                    (current_list s \<mapsto> listing e (finsert (word c) (remembered_words s))),
                 disk := d\<rparr>"
    | (adv) s0 where "get_new_word (shuffle e) s0 = Inr s'" "s0 = s \<or> fresh_round e s0"
    by blast
  then show ?case
  proof cases
    case same
    with step.IH show ?thesis by simp
  next
    case rev
    with step.IH show ?thesis by (auto simp: round_inv_def queue_ok_def all_remembered_def)
  next
    case mark
    with step.IH show ?thesis by (auto simp: round_inv_def queue_ok_def all_remembered_def)
  next
    case adv
    have "queue_ok s0"
      using adv(2) step.IH step.hyps(2) fresh_round_queue_ok
      by (auto simp: round_inv_def env_ok_def)
    then show ?thesis
      using adv(1) step.hyps(2) get_new_word_inv by (auto simp: env_ok_def)
  qed
qed

subsection \<open>The example\<close>

lemma key_names:
  "lower (str ''Return'') \<noteq> str ''q''" "lower (str ''space'') \<noteq> str ''q''"
  "str ''space'' \<noteq> str ''Return''" "lower (str ''n'') \<noteq> str ''q''"
  "str ''n'' \<noteq> str ''Return''" "str ''n'' \<noteq> str ''space''" "lower (str ''n'') = str ''n''"
  by (simp_all add: lower_def str_def)

lemma is_shuffle_id: "is_shuffle (\<lambda>xs. xs)"
  by (simp add: is_shuffle_def)

lemma is_listing_sorted: "is_listing sorted_list_of_fset"
proof -
  have "distinct (sorted_list_of_fset S)" for S :: "pystr fset"
    by (simp add: sorted_list_of_fset.rep_eq)
  then show ?thesis by (simp add: is_listing_def)
qed

lemma env_ok_env0: "env_ok env0"
  by (simp add: env_ok_def env0_def is_shuffle_id is_listing_sorted)

lemma main_env0: "main env0 (initial Absent) = Inr two_words"
  by (simp add: main_def and_then_def load_progress_def exists_def initial_def env0_def
      load_words_eq rows_read_def list1_rows_def Let_def progress_get_def get_new_word_eq
      next_queue_def two_words_def cat_def dog_def strip_def isspace_def str_def csv_name_def)

lemma reachable_two_words: "reachable two_words"
  using reachable.start[OF env_ok_env0 main_env0] .

section \<open>The Return key: reveal, then advance\<close>

text \<open>
  C6 (as amended). A press of the Return key does nothing when \<open>current\<close> is absent;
  with \<open>current\<close> present and the definition hidden it sets \<open>revealed\<close> and changes
  nothing else; with the definition already shown it is not a no-op: it calls
  \<open>get_new_word\<close>, which leaves \<open>revealed\<close> false.
\<close>

theorem return_key_press:
  assumes "keysym ev = str ''Return''"
  shows "(current s = None \<longrightarrow> on_key_press e ev s = Inr s) \<and>
         (current s \<noteq> None \<and> \<not> revealed s \<longrightarrow> on_key_press e ev s = Inr (s\<lparr>revealed := True\<rparr>)) \<and>
         (current s \<noteq> None \<and> revealed s \<longrightarrow>
            (\<exists>s'. on_key_press e ev s = Inr s' \<and> get_new_word (shuffle e) s = Inr s' \<and>
                  \<not> revealed s'))"
  using assms by (auto simp: on_key_press_def key_names get_new_word_eq)

theorem return_key_press_witness:
  "keysym return_key = str ''Return'' \<and>
   on_key_press env0 return_key two_words = Inr (two_words\<lparr>revealed := True\<rparr>) \<and>
   on_key_press env0 return_key (two_words\<lparr>revealed := True\<rparr>)
     = Inr (two_words\<lparr>current := Some dog, round_list := [], revealed := False\<rparr>) \<and>
   on_key_press env0 return_key (two_words\<lparr>current := None\<rparr>) = Inr (two_words\<lparr>current := None\<rparr>)"
  using return_key_press[of return_key two_words env0]
    return_key_press[of return_key "two_words\<lparr>revealed := True\<rparr>" env0]
    return_key_press[of return_key "two_words\<lparr>current := None\<rparr>" env0]
  by (simp add: return_key_def two_words_def env0_def get_new_word_eq next_queue_def)

text \<open>
  Two presses of Return in a row, from the state \<open>main\<close> reaches on the example: the
  first reveals the definition of \<open>cat\<close>, the second moves on to \<open>dog\<close> with the
  definition hidden again.
\<close>

theorem return_twice_counterexample:
  "and_then (on_key_press env0 return_key two_words) (on_key_press env0 return_key)
     = Inr (two_words\<lparr>current := Some dog, round_list := [], revealed := False\<rparr>)"
  by (simp add: and_then_def on_key_press_def key_names return_key_def two_words_def env0_def
      get_new_word_eq next_queue_def)

section \<open>Marking a word as remembered\<close>

lemma space_press:
  assumes "current s = Some c" "keysym ev = str ''space''"
  shows "on_key_press e ev s =
     Inr (s\<lparr>remembered_words := finsert (word c) (remembered_words s),
            progress_data := (progress_data s)
               (current_list s \<mapsto> listing e (finsert (word c) (remembered_words s))),
            disk := disk_after (write_outcome e)
               (s\<lparr>progress_data := (progress_data s)
                  (current_list s \<mapsto> listing e (finsert (word c) (remembered_words s)))\<rparr>)\<rparr>)"
  using assms
  by (simp add: on_key_press_def key_names Let_def save_progress_eq disk_after_def
      split: io_outcome.splits)

lemma marks_run:
  assumes "es \<noteq> []" "current s = Some c" "keysym ev = str ''space''"
  shows "\<exists>s'. run (map (\<lambda>e. (e, Key ev)) es) s = Inr s' \<and> current s' = Some c \<and>
     current_list s' = current_list s \<and>
     remembered_words s' = finsert (word c) (remembered_words s) \<and>
     progress_data s' (current_list s) =
       Some (listing (last es) (finsert (word c) (remembered_words s))) \<and>
     disk s' = disk_after (write_outcome (last es)) s'"
  using assms
proof (induction es arbitrary: s rule: list_nonempty_induct)
  case (single e)
  then show ?case
    using space_press[of s c ev e] by (simp add: and_then_def disk_after_def split: io_outcome.splits)
next
  case (cons e es)
  let ?s1 = "s\<lparr>remembered_words := finsert (word c) (remembered_words s),
            progress_data := (progress_data s)
               (current_list s \<mapsto> listing e (finsert (word c) (remembered_words s))),
            disk := disk_after (write_outcome e)
               (s\<lparr>progress_data := (progress_data s)
                  (current_list s \<mapsto> listing e (finsert (word c) (remembered_words s)))\<rparr>)\<rparr>"
  have 1: "on_key_press e ev s = Inr ?s1"
    using space_press[OF cons.prems] .
  have "current ?s1 = Some c" using cons.prems by simp
  from cons.IH[OF this cons.prems(2)] cons.hyps 1 show ?case
    by (auto simp: and_then_def)
qed

text \<open>
  C4. The space key with \<open>current\<close> present adds the word of \<open>current\<close> to
  \<open>remembered_words\<close> and stores a list of exactly that set under the active list in
  \<open>progress_data\<close>, which \<open>save_progress\<close> writes (the file holds the store when the
  write succeeds, and is untouched when the file cannot be opened). Nothing else
  changes: \<open>current\<close>, \<open>revealed\<close>, \<open>round_list\<close>, \<open>words\<close>, the active list and the
  stored progress of every other list are as before, so no advance takes place.
\<close>

theorem mark_remembered_frame:
  assumes "current s = Some c" and "keysym ev = str ''space''" and "is_listing (listing e)"
  shows "\<exists>s' l. on_key_press e ev s = Inr s' \<and>
     remembered_words s' = finsert (word c) (remembered_words s) \<and>
     progress_data s' = (progress_data s)(current_list s \<mapsto> l) \<and>
     fset_of_list l = remembered_words s' \<and>
     (write_outcome e = IoOk \<longrightarrow> disk s' = Json (Dict (progress_data s'))) \<and>
     (\<forall>x. write_outcome e = OpenFails x \<longrightarrow> disk s' = disk s) \<and>
     (\<forall>k. k \<noteq> current_list s \<longrightarrow> progress_data s' k = progress_data s k) \<and>
     current s' = current s \<and> revealed s' = revealed s \<and> round_list s' = round_list s \<and>
     words s' = words s \<and> current_list s' = current_list s"
proof -
  let ?l = "listing e (finsert (word c) (remembered_words s))"
  have "fset_of_list ?l = finsert (word c) (remembered_words s)"
    using assms(3) by (simp add: is_listing_def)
  then show ?thesis
    using space_press[OF assms(1,2), of e]
    by (auto simp: disk_after_def)
qed

theorem mark_remembered_frame_witness:
  "current two_words = Some cat \<and> keysym space_key = str ''space'' \<and> is_listing (listing env0) \<and>
   on_key_press env0 space_key two_words = Inr marked"
proof -
  have l: "listing env0 {|str ''cat''|} = [str ''cat'']"
    by (simp add: env0_def sorted_list_of_fset.rep_eq)
  have h: "current two_words = Some cat" "keysym space_key = str ''space''"
    "is_listing (listing env0)"
    by (simp_all add: two_words_def space_key_def env0_def is_listing_sorted)
  from mark_remembered_frame[OF h]
  obtain s' l where s': "on_key_press env0 space_key two_words = Inr s'" by blast
  have "s' = marked"
    using s' space_press[OF h(1,2), of env0] l
    by (simp add: two_words_def marked_def cat_def disk_after_def env0_def)
  with s' h show ?thesis by simp
qed

text \<open>
  C10. After one or more presses of the space key with \<open>current\<close> present, the
  remembered set is the old one with the word of \<open>current\<close> added (unchanged when the
  word was in it already), and the array stored for the active list lists exactly that
  set without a duplicate, whatever order \<open>list(remembered_words)\<close> produces; the file
  holds the store when the last write succeeds.
\<close>

theorem marking_idempotent:
  assumes "current s = Some c" and "keysym ev = str ''space''"
    and "es \<noteq> []" and "\<forall>e \<in> set es. is_listing (listing e)"
  shows "\<exists>s' l. run (map (\<lambda>e. (e, Key ev)) es) s = Inr s' \<and>
     remembered_words s' = finsert (word c) (remembered_words s) \<and>
     (word c |\<in>| remembered_words s \<longrightarrow> remembered_words s' = remembered_words s) \<and>
     progress_data s' (current_list s') = Some l \<and> distinct l \<and>
     fset_of_list l = remembered_words s' \<and>
     (write_outcome (last es) = IoOk \<longrightarrow> disk s' = Json (Dict (progress_data s')))"
proof -
  obtain s' where s': "run (map (\<lambda>e. (e, Key ev)) es) s = Inr s'"
    "current_list s' = current_list s"
    "remembered_words s' = finsert (word c) (remembered_words s)"
    "progress_data s' (current_list s) =
       Some (listing (last es) (finsert (word c) (remembered_words s)))"
    "disk s' = disk_after (write_outcome (last es)) s'"
    using marks_run[OF assms(3,1,2)] by blast
  have "is_listing (listing (last es))"
    using assms(3,4) by simp
  then have "distinct (listing (last es) (finsert (word c) (remembered_words s)))"
    "fset_of_list (listing (last es) (finsert (word c) (remembered_words s)))
       = finsert (word c) (remembered_words s)"
    by (simp_all add: is_listing_def)
  with s' show ?thesis
    by (auto simp: disk_after_def finsert_absorb)
qed

theorem marking_idempotent_witness:
  "current two_words = Some cat \<and> keysym space_key = str ''space'' \<and>
   is_listing (listing env0) \<and>
   run [(env0, Key space_key), (env0, Key space_key)] two_words = Inr marked \<and>
   progress_data marked (current_list marked) = Some [str ''cat''] \<and>
   distinct [str ''cat'']"
proof -
  have h: "current two_words = Some cat" "keysym space_key = str ''space''"
    "[env0, env0] \<noteq> []" "\<forall>e \<in> set [env0, env0]. is_listing (listing e)"
    by (simp_all add: two_words_def space_key_def env0_def is_listing_sorted)
  from marking_idempotent[OF h]
  obtain s' l where s': "run [(env0, Key space_key), (env0, Key space_key)] two_words = Inr s'"
    "remembered_words s' = finsert (word cat) (remembered_words two_words)"
    by auto
  have l: "listing env0 {|str ''cat''|} = [str ''cat'']"
    by (simp add: env0_def sorted_list_of_fset.rep_eq)
  have "run [(env0, Key space_key), (env0, Key space_key)] two_words = Inr marked"
    using space_press[OF h(1,2), of env0] l
      space_press[of marked cat space_key env0]
    by (simp add: and_then_def two_words_def marked_def cat_def disk_after_def env0_def space_key_def)
  with s'(1) have "s' = marked" by simp
  with s'(1) h show ?thesis by (simp add: marked_def)
qed

section \<open>A remembered word is not shown again\<close>

lemma perform_keeps_remembered:
  assumes "\<not> clears e a" "perform e a s = Inr s'" "w |\<in>| remembered_words s"
  shows "w |\<in>| remembered_words s'"
proof (cases a)
  case (Key ev)
  with assms show ?thesis
    by (auto simp: on_key_press_def get_new_word_eq Let_def save_progress_eq
        reset_current_def reset_all_def split: if_splits option.splits)
next
  case Update_button
  with assms show ?thesis by (simp add: reset_current_def)
next
  case Update_all_button
  with assms show ?thesis by (simp add: reset_all_def)
next
  case (Select_list l)
  with assms show ?thesis by simp
qed

lemma run_keeps_remembered:
  assumes "\<forall>(e, a) \<in> set steps. \<not> clears e a" "w |\<in>| remembered_words s"
  shows "\<exists>s'. run steps s = Inr s' \<and> w |\<in>| remembered_words s'"
  using assms
proof (induction steps arbitrary: s)
  case Nil
  then show ?case by simp
next
  case (Cons p steps)
  obtain e a where p: "p = (e, a)" by (cases p)
  obtain s1 where s1: "perform e a s = Inr s1" using perform_total by blast
  have "w |\<in>| remembered_words s1"
    using perform_keeps_remembered[OF _ s1 Cons.prems(2)] Cons.prems(1) p by simp
  with Cons.IH[of s1] Cons.prems(1) p s1 show ?case
    by (simp add: and_then_def)
qed

text \<open>
  C1. Let \<open>w\<close> be in the remembered set, and let any sequence of actions follow that
  holds no confirmed reset and no switch of list. Then the sequence runs without an
  exception, and \<open>get_new_word\<close> called after it, with any permutation as its shuffle,
  returns with \<open>w\<close> still remembered and with a \<open>current\<close> whose word is not \<open>w\<close>.
\<close>

theorem remembered_word_not_shown:
  assumes "w |\<in>| remembered_words s"
    and "\<forall>(e, a) \<in> set steps. \<not> clears e a"
    and "is_shuffle sh"
  shows "\<exists>s1 s2. run steps s = Inr s1 \<and> get_new_word sh s1 = Inr s2 \<and>
           w |\<in>| remembered_words s2 \<and> (\<forall>c. current s2 = Some c \<longrightarrow> word c \<noteq> w)"
proof -
  obtain s1 where s1: "run steps s = Inr s1" "w |\<in>| remembered_words s1"
    using run_keeps_remembered[OF assms(2,1)] by blast
  let ?q = "next_queue sh s1"
  have "word c \<noteq> w" if "?q = c # rest" for c rest
  proof -
    have "c \<in> set ?q" using that by simp
    then have "word c |\<notin>| remembered_words s1"
      using assms(3) next_queue_unremembered by blast
    with s1(2) show ?thesis by auto
  qed
  then show ?thesis
    using s1 by (auto simp: get_new_word_eq split: list.splits)
qed

theorem remembered_word_not_shown_witness:
  "str ''cat'' |\<in>| remembered_words marked \<and>
   \<not> clears env0 (Key return_key) \<and> \<not> clears env0 (Key n_key) \<and> is_shuffle rev \<and>
   run [(env0, Key return_key), (env0, Key n_key)] marked
     = Inr (marked\<lparr>current := Some dog, round_list := [], revealed := False\<rparr>) \<and>
   get_new_word rev (marked\<lparr>current := Some dog, round_list := [], revealed := False\<rparr>)
     = Inr (marked\<lparr>current := Some dog, round_list := [], revealed := False\<rparr>)"
proof -
  have h: "str ''cat'' |\<in>| remembered_words marked"
    "\<forall>(e, a) \<in> set [(env0, Key return_key), (env0, Key n_key)]. \<not> clears e a"
    "is_shuffle rev"
    by (simp_all add: marked_def return_key_def n_key_def key_names is_shuffle_def)
  from remembered_word_not_shown[OF h]
  obtain s1 s2 where s: "run [(env0, Key return_key), (env0, Key n_key)] marked = Inr s1"
    "get_new_word rev s1 = Inr s2" "\<forall>c. current s2 = Some c \<longrightarrow> word c \<noteq> str ''cat''"
    by blast
  have r: "run [(env0, Key return_key), (env0, Key n_key)] marked
     = Inr (marked\<lparr>current := Some dog, round_list := [], revealed := False\<rparr>)"
    by (simp add: and_then_def on_key_press_def return_key_def n_key_def marked_def
        env0_def get_new_word_eq next_queue_def cat_def dog_def str_def lower_def)
  with s(1) have s1: "s1 = marked\<lparr>current := Some dog, round_list := [], revealed := False\<rparr>"
    by simp
  have "get_new_word rev s1 = Inr s1"
    unfolding s1
    by (simp add: marked_def get_new_word_eq next_queue_def cat_def dog_def str_def)
  with s s1 r h show ?thesis by simp
qed

section \<open>When \<open>current\<close> is absent\<close>

lemma str_eq_iff [simp]: "str a = str b \<longleftrightarrow> a = b"
  by (simp add: str_def inj_map_eq_map inj_on_def)

lemma listing_cat_dog: "listing env0 {|str ''cat'', str ''dog''|} = [str ''cat'', str ''dog'']"
proof -
  have "sorted_list_of_set {str ''cat'', str ''dog''} = [str ''cat'', str ''dog'']"
    by (simp add: str_def)
  then show ?thesis by (simp add: env0_def sorted_list_of_fset.rep_eq)
qed

lemma run_both_marked:
  "run [(env0, Key space_key), (env0, Key return_key), (env0, Key return_key), (env0, Key space_key)]
     two_words = Inr both_marked"
proof -
  have l: "listing env0 {|str ''cat''|} = [str ''cat'']"
    by (simp add: env0_def sorted_list_of_fset.rep_eq)
  have 1: "on_key_press env0 space_key two_words = Inr marked"
    using space_press[of two_words cat space_key env0] l
    by (simp add: two_words_def marked_def cat_def disk_after_def env0_def space_key_def)
  have 2: "on_key_press env0 return_key marked = Inr (marked\<lparr>revealed := True\<rparr>)"
    by (simp add: on_key_press_def key_names return_key_def marked_def)
  have 3: "on_key_press env0 return_key (marked\<lparr>revealed := True\<rparr>)
     = Inr (marked\<lparr>current := Some dog, round_list := [], revealed := False\<rparr>)"
    by (simp add: on_key_press_def key_names return_key_def marked_def env0_def
        get_new_word_eq next_queue_def dog_def)
  have 4: "on_key_press env0 space_key (marked\<lparr>current := Some dog, round_list := [], revealed := False\<rparr>)
     = Inr both_marked"
    using space_press[of "marked\<lparr>current := Some dog, round_list := [], revealed := False\<rparr>" dog space_key env0]
      listing_cat_dog
    by (simp add: marked_def both_marked_def dog_def disk_after_def env0_def space_key_def
        finsert_commute)
  show ?thesis by (simp add: and_then_def 1 2 3 4)
qed


lemma reachable_run:
  assumes "reachable s" "\<forall>(e, a) \<in> set steps. env_ok e" "run steps s = Inr s'"
  shows "reachable s'"
  using assms
proof (induction steps arbitrary: s)
  case Nil
  then show ?case by simp
next
  case (Cons p steps)
  obtain e a where p: "p = (e, a)" by (cases p)
  obtain s1 where s1: "perform e a s = Inr s1" using perform_total by blast
  have "reachable s1"
    using reachable.step[OF Cons.prems(1) _ s1] Cons.prems(2) p by simp
  with Cons.IH[of s1] Cons.prems p s1 show ?case
    by (simp add: and_then_def)
qed

lemma reset_current_confirmed:
  assumes "askyesno e" "reset_current e s = Inr s'"
  shows "\<exists>s0. get_new_word (shuffle e) s0 = Inr s' \<and> fresh_round e s0"
proof -
  let ?s2 = "s\<lparr>remembered_words := {||}, progress_data := (progress_data s)(current_list s \<mapsto> [])\<rparr>"
  let ?s0 = "?s2\<lparr>disk := disk_after (write_outcome e) ?s2, round_list := shuffle e (words s)\<rparr>"
  have "get_new_word (shuffle e) ?s0 = Inr s'"
    using assms by (simp add: reset_current_def and_then_def Let_def save_progress_eq)
  moreover have "fresh_round e ?s0" by (simp add: fresh_round_def)
  ultimately show ?thesis by blast
qed

lemma reset_all_confirmed:
  assumes "askyesno e" "reset_all e s = Inr s'"
  shows "\<exists>s0. get_new_word (shuffle e) s0 = Inr s' \<and> fresh_round e s0"
proof -
  let ?s2 = "s\<lparr>progress_data := \<lambda>key. case progress_data s key of None \<Rightarrow> None | Some v \<Rightarrow> Some [],
               remembered_words := {||}\<rparr>"
  let ?s0 = "?s2\<lparr>disk := disk_after (write_outcome e) ?s2, round_list := shuffle e (words s)\<rparr>"
  have "get_new_word (shuffle e) ?s0 = Inr s'"
    using assms by (simp add: reset_all_def and_then_def Let_def save_progress_eq)
  moreover have "fresh_round e ?s0" by (simp add: fresh_round_def)
  ultimately show ?thesis by blast
qed

lemma advancing_calls_get_new_word:
  assumes "advancing e a s" "perform e a s = Inr s'"
  shows "\<exists>s0. get_new_word (shuffle e) s0 = Inr s' \<and> (s0 = s \<or> fresh_round e s0)"
proof (cases a)
  case (Key ev)
  have q: "lower (keysym ev) \<noteq> str ''q''" using assms(1) Key by simp
  consider (ret) "keysym ev = str ''Return''" "current s \<noteq> None" "revealed s"
    | (skip) "keysym ev \<noteq> str ''Return''" "keysym ev \<noteq> str ''space''"
        "lower (char ev) = str ''n''" "current s \<noteq> None" "revealed s"
    | (reset) "keysym ev \<noteq> str ''Return''" "keysym ev \<noteq> str ''space''"
        "lower (char ev) \<noteq> str ''n''" "char ev = str ''r'' \<or> char ev = str ''R''" "askyesno e"
    using assms(1) Key by (auto split: if_splits)
  then show ?thesis
  proof cases
    case ret
    then have "get_new_word (shuffle e) s = Inr s'"
      using assms(2) Key q by (auto simp: on_key_press_def)
    then show ?thesis by blast
  next
    case skip
    then have "get_new_word (shuffle e) s = Inr s'"
      using assms(2) Key q by (auto simp: on_key_press_def)
    then show ?thesis by blast
  next
    case reset
    then have "reset_current e s = Inr s' \<or> reset_all e s = Inr s'"
      using assms(2) Key q by (auto simp: on_key_press_def split: if_splits)
    then show ?thesis
      using reset(5) reset_current_confirmed reset_all_confirmed by blast
  qed
next
  case Update_button
  with assms show ?thesis using reset_current_confirmed by (simp, blast)
next
  case Update_all_button
  with assms show ?thesis using reset_all_confirmed by (simp, blast)
next
  case (Select_list l)
  with assms show ?thesis using on_list_change_cases by (simp, blast)
qed

lemma not_advancing_keeps_current:
  assumes "\<not> advancing e a s" "perform e a s = Inr s'"
  shows "current s' = current s \<and> words s' = words s"
proof (cases a)
  case (Key ev)
  with assms show ?thesis
    by (auto simp: on_key_press_def reset_current_def reset_all_def save_progress_eq Let_def
        split: if_splits option.splits)
next
  case Update_button
  with assms show ?thesis by (simp add: reset_current_def)
next
  case Update_all_button
  with assms show ?thesis by (simp add: reset_all_def)
next
  case (Select_list l)
  with assms show ?thesis by simp
qed

lemma advance_iff:
  assumes "is_shuffle sh" "set (round_list s) \<subseteq> set (words s)" "get_new_word sh s = Inr s'"
  shows "current s' = None \<longleftrightarrow> all_remembered s'"
proof -
  have "next_queue sh s = [] \<longleftrightarrow> all_remembered s"
    using assms(1,2) by (simp add: next_queue_Nil)
  moreover have "all_remembered s' \<longleftrightarrow> all_remembered s"
    using assms(3) by (auto simp: get_new_word_eq all_remembered_def)
  ultimately show ?thesis
    using assms(3) by (auto simp: get_new_word_eq split: list.splits)
qed

text \<open>
  C3 (as amended). In every state the program can reach: if \<open>current\<close> is absent, every
  entry of \<open>words\<close> is remembered (which includes the case of no words); and if
  \<open>current\<close> is present and its word is not remembered, some entry of \<open>words\<close> is not
  remembered. After \<open>main\<close>, after any call of \<open>get_new_word\<close>, and after every action
  that calls it (Return or \<open>n\<close> with the definition revealed, a confirmed reset, a switch
  of list), \<open>current\<close> is absent exactly when every entry of \<open>words\<close> is remembered. Every
  other action leaves \<open>current\<close> and \<open>words\<close> as they are. So the converse can fail only
  from the marking of the word on display to the next advance.
\<close>

theorem current_absent_only_if_all_remembered:
  assumes "reachable s" and "env_ok e"
  shows "(current s = None \<longrightarrow> all_remembered s) \<and>
         (\<forall>c. current s = Some c \<and> word c |\<notin>| remembered_words s \<longrightarrow> \<not> all_remembered s) \<and>
         (\<forall>sh s'. is_shuffle sh \<and> get_new_word sh s = Inr s' \<longrightarrow>
            (current s' = None \<longleftrightarrow> all_remembered s')) \<and>
         (\<forall>a s'. advancing e a s \<and> perform e a s = Inr s' \<longrightarrow>
            (current s' = None \<longleftrightarrow> all_remembered s')) \<and>
         (\<forall>a s'. \<not> advancing e a s \<and> perform e a s = Inr s' \<longrightarrow>
            current s' = current s \<and> words s' = words s) \<and>
         (\<forall>f s0. main e (initial f) = Inr s0 \<longrightarrow> (current s0 = None \<longleftrightarrow> all_remembered s0))"
proof -
  have inv: "round_inv s" using assms(1) by (rule reachable_round_inv)
  then have sub: "set (round_list s) \<subseteq> set (words s)"
    by (simp add: round_inv_def queue_ok_def)
  have sh: "is_shuffle (shuffle e)" using assms(2) by (simp add: env_ok_def)
  have fresh: "set (round_list s0) \<subseteq> set (words s0)" if "fresh_round e s0" for s0
    using fresh_round_queue_ok[OF sh that] by (simp add: queue_ok_def)
  have 1: "current s = None \<longrightarrow> all_remembered s"
    using inv by (simp add: round_inv_def)
  have 2: "\<not> all_remembered s" if "current s = Some c" "word c |\<notin>| remembered_words s" for c
    using inv that by (auto simp: round_inv_def all_remembered_def)
  have 3: "current s' = None \<longleftrightarrow> all_remembered s'"
    if "is_shuffle sh" "get_new_word sh s = Inr s'" for sh s'
    using advance_iff[OF that(1) sub that(2)] .
  have 4: "current s' = None \<longleftrightarrow> all_remembered s'"
    if h: "advancing e a s" "perform e a s = Inr s'" for a s'
  proof -
    obtain s0 where s0: "get_new_word (shuffle e) s0 = Inr s'" "s0 = s \<or> fresh_round e s0"
      using advancing_calls_get_new_word[OF h] by blast
    then have "set (round_list s0) \<subseteq> set (words s0)"
      using sub fresh by blast
    then show ?thesis using advance_iff[OF sh _ s0(1)] by blast
  qed
  have 5: "current s' = current s \<and> words s' = words s"
    if "\<not> advancing e a s" "perform e a s = Inr s'" for a s'
    using that by (rule not_advancing_keeps_current)
  have 6: "current s0 = None \<longleftrightarrow> all_remembered s0" if h: "main e (initial f) = Inr s0" for f s0
  proof -
    obtain s1 where s1: "get_new_word (shuffle e) s1 = Inr s0" "fresh_round e s1"
      using main_cases[OF h] by blast
    then show ?thesis using advance_iff[OF sh _ s1(1)] fresh by blast
  qed
  show ?thesis
    using 1 2 3 4 5 6 by blast
qed

theorem current_absent_only_if_all_remembered_witness:
  "reachable both_marked \<and> env_ok env0 \<and>
   advancing env0 (Select_list (str ''list1'')) both_marked \<and>
   perform env0 (Select_list (str ''list1'')) both_marked = Inr (both_marked\<lparr>current := None\<rparr>) \<and>
   all_remembered (both_marked\<lparr>current := None\<rparr>) \<and>
   \<not> advancing env0 (Key space_key) two_words \<and>
   perform env0 (Key space_key) two_words = Inr marked \<and> current marked = current two_words \<and>
   reachable two_words \<and> current two_words = Some cat \<and>
   word cat |\<notin>| remembered_words two_words \<and> \<not> all_remembered two_words"
proof -
  have r: "reachable both_marked"
    using reachable_run[OF reachable_two_words _ run_both_marked] env_ok_env0 by simp
  have w: "rows_read (Reader list1_rows) = [cat, dog]"
    by (simp add: rows_read_def list1_rows_def cat_def dog_def strip_def isspace_def str_def)
  have p: "perform env0 (Select_list (str ''list1'')) both_marked
      = Inr (both_marked\<lparr>current := None\<rparr>)"
    by (simp add: on_list_change_def and_then_def load_words_eq w env0_def
        Let_def progress_get_def get_new_word_eq next_queue_def both_marked_def
        cat_def dog_def finsert_commute)
  have a: "advancing env0 (Select_list (str ''list1'')) both_marked" by simp
  from current_absent_only_if_all_remembered[OF r env_ok_env0] a p
  have "current (both_marked\<lparr>current := None\<rparr>) = None
      \<longleftrightarrow> all_remembered (both_marked\<lparr>current := None\<rparr>)"
    by blast
  then have 1: "all_remembered (both_marked\<lparr>current := None\<rparr>)" by simp
  have l: "listing env0 {|str ''cat''|} = [str ''cat'']"
    by (simp add: env0_def sorted_list_of_fset.rep_eq)
  have m: "perform env0 (Key space_key) two_words = Inr marked"
    using space_press[of two_words cat space_key env0] l
    by (simp add: two_words_def marked_def cat_def disk_after_def env0_def space_key_def)
  have n: "\<not> advancing env0 (Key space_key) two_words"
    by (simp add: space_key_def key_names)
  from current_absent_only_if_all_remembered[OF reachable_two_words env_ok_env0] n m
  have 2: "current marked = current two_words" by blast
  have t: "current two_words = Some cat" "word cat |\<notin>| remembered_words two_words"
    by (simp_all add: two_words_def)
  from current_absent_only_if_all_remembered[OF reachable_two_words env_ok_env0] t
  have 3: "\<not> all_remembered two_words" by blast
  show ?thesis
    using r env_ok_env0 a p 1 n m 2 t 3 reachable_two_words by simp
qed

text \<open>
  On the example: mark \<open>cat\<close>, reveal, advance to \<open>dog\<close>, mark \<open>dog\<close>. Every entry of
  \<open>words\<close> is then remembered and \<open>current\<close> is still \<open>dog\<close>.
\<close>

theorem mark_last_word_counterexample:
  "reachable both_marked \<and> current both_marked = Some dog \<and> all_remembered both_marked \<and>
   words both_marked = [cat, dog]"
proof -
  have "reachable both_marked"
    using reachable_run[OF reachable_two_words _ run_both_marked] env_ok_env0 by simp
  then show ?thesis
    by (simp add: both_marked_def all_remembered_def cat_def dog_def)
qed

section \<open>Rounds\<close>

lemma round_run_queue:
  assumes "current s = Some c"
    and "\<forall>x \<in> set (round_list s). word x |\<notin>| remembered_words s"
    and "list_all is_advance steps \<or> distinct (map word (c # round_list s))"
    and "length (filter is_advance steps) \<le> length (round_list s)"
  shows "\<exists>s'. round_run steps s =
             Inr (map Some (take (length (filter is_advance steps)) (round_list s)), s') \<and>
           round_list s' = drop (length (filter is_advance steps)) (round_list s)"
  using assms
proof (induction steps arbitrary: s c)
  case Nil
  then show ?case by simp
next
  case (Cons st steps)
  show ?case
  proof (cases st)
    case (Advance sh)
    with Cons.prems(4) obtain w rest where q: "round_list s = w # rest"
      by (cases "round_list s") auto
    have "filter (\<lambda>w. word w |\<notin>| remembered_words s) (round_list s) = round_list s"
      using Cons.prems(2) by (simp add: filter_id_conv)
    then have nq: "next_queue sh s = w # rest"
      using q by (simp add: next_queue_def)
    let ?s1 = "s\<lparr>round_list := rest, current := Some w, revealed := False\<rparr>"
    have 1: "get_new_word sh s = Inr ?s1"
      by (simp add: get_new_word_eq nq)
    have "\<exists>s'. round_run steps ?s1 =
             Inr (map Some (take (length (filter is_advance steps)) (round_list ?s1)), s') \<and>
           round_list s' = drop (length (filter is_advance steps)) (round_list ?s1)"
    proof (rule Cons.IH[of ?s1 w])
      show "current ?s1 = Some w" by simp
      show "\<forall>x \<in> set (round_list ?s1). word x |\<notin>| remembered_words ?s1"
        using Cons.prems(2) q by simp
      show "list_all is_advance steps \<or> distinct (map word (w # round_list ?s1))"
        using Cons.prems(3) q Advance by auto
      show "length (filter is_advance steps) \<le> length (round_list ?s1)"
        using Cons.prems(4) q Advance by simp
    qed
    then show ?thesis
      using 1 q Advance by (auto simp: and_then_def)
  next
    case (Mark e)
    let ?ev = "\<lparr>keysym = str ''space'', char = str '' ''\<rparr>"
    let ?R = "finsert (word c) (remembered_words s)"
    let ?s1 = "s\<lparr>remembered_words := ?R,
            progress_data := (progress_data s)(current_list s \<mapsto> listing e ?R),
            disk := disk_after (write_outcome e)
               (s\<lparr>progress_data := (progress_data s)(current_list s \<mapsto> listing e ?R)\<rparr>)\<rparr>"
    have 1: "on_key_press e ?ev s = Inr ?s1"
      using space_press[OF Cons.prems(1), of ?ev e] by simp
    have d: "distinct (map word (c # round_list s))"
      using Cons.prems(3) Mark by simp
    have "\<exists>s'. round_run steps ?s1 =
             Inr (map Some (take (length (filter is_advance steps)) (round_list ?s1)), s') \<and>
           round_list s' = drop (length (filter is_advance steps)) (round_list ?s1)"
    proof (rule Cons.IH[of ?s1 c])
      show "current ?s1 = Some c" using Cons.prems(1) by simp
      have "word x \<noteq> word c" if "x \<in> set (round_list s)" for x
        using d that by (metis distinct.simps(2) image_eqI list.simps(9) set_map)
      then show "\<forall>x \<in> set (round_list ?s1). word x |\<notin>| remembered_words ?s1"
        using Cons.prems(2) by simp
      show "list_all is_advance steps \<or> distinct (map word (c # round_list ?s1))"
        using d by simp
      show "length (filter is_advance steps) \<le> length (round_list ?s1)"
        using Cons.prems(4) Mark by simp
    qed
    then show ?thesis
      using 1 Mark by (auto simp: and_then_def)
  qed
qed

lemma fresh_round_mset:
  assumes "is_shuffle (shuffle e)" "fresh_round e s"
  shows "mset (round_list s) = mset (filter (\<lambda>w. word w |\<notin>| remembered_words s) (words s))"
  using assms by (simp add: fresh_round_def is_shuffle_def)

lemma main_env_dup:
  "main env_dup (initial Absent) = Inr (dup_fresh\<lparr>current := Some cat, round_list := [cat_b, dog]\<rparr>)"
  by (simp add: main_def and_then_def load_progress_def exists_def initial_def env_dup_def env0_def
      load_words_eq rows_read_def Let_def progress_get_def get_new_word_eq
      next_queue_def dup_fresh_def cat_def cat_b_def dog_def strip_def isspace_def str_def csv_name_def)

text \<open>
  C2 (as amended). Let a round begin: \<open>get_new_word\<close> finds the purged round queue
  empty and rebuilds it as a shuffle of the unremembered entries of \<open>words\<close>, or it is
  called on a queue just built as such a shuffle (as in \<open>main\<close>, \<open>on_list_change\<close> and
  the resets). Let the round go on with further advances, fewer than there are such
  entries, and with presses of the space key in between. If no word is marked during
  the round, or the word strings of the list are pairwise distinct, then, for every
  permutation the shuffle produces, the entries shown are the first entries of that
  permutation, one per advance and in its order, and the queue holds the rest: after
  as many advances as there are unremembered entries, each has been \<open>current\<close> exactly
  once and the queue is empty.
\<close>

theorem round_shows_each_entry_once:
  assumes "is_shuffle sh"
    and "filter (\<lambda>w. word w |\<notin>| remembered_words s) (round_list s) = [] \<or>
         mset (round_list s) = mset (filter (\<lambda>w. word w |\<notin>| remembered_words s) (words s))"
    and "length (filter is_advance steps)
           < length (filter (\<lambda>w. word w |\<notin>| remembered_words s) (words s))"
    and "list_all is_advance steps \<or> distinct (map word (words s))"
  shows "\<exists>P s'.
           P = (if filter (\<lambda>w. word w |\<notin>| remembered_words s) (round_list s) = []
                then sh (filter (\<lambda>w. word w |\<notin>| remembered_words s) (words s))
                else round_list s) \<and>
           mset P = mset (filter (\<lambda>w. word w |\<notin>| remembered_words s) (words s)) \<and>
           round_run (Advance sh # steps) s =
             Inr (map Some (take (Suc (length (filter is_advance steps))) P), s') \<and>
           round_list s' = drop (Suc (length (filter is_advance steps))) P"
proof -
  define U where "U = filter (\<lambda>w. word w |\<notin>| remembered_words s) (words s)"
  define F where "F = filter (\<lambda>w. word w |\<notin>| remembered_words s) (round_list s)"
  define P where "P = (if F = [] then sh U else round_list s)"
  let ?k = "length (filter is_advance steps)"
  have mP: "mset P = mset U"
  proof (cases "F = []")
    case True
    then show ?thesis using assms(1) by (simp add: P_def is_shuffle_def)
  next
    case False
    then show ?thesis using assms(2) by (simp add: P_def F_def U_def)
  qed
  then have "set P = set U" by (metis set_mset_mset)
  then have unrem: "\<forall>x \<in> set P. word x |\<notin>| remembered_words s"
    by (simp add: U_def)
  have nqP: "next_queue sh s = P"
  proof (cases "F = []")
    case True
    then show ?thesis by (simp add: next_queue_def P_def F_def U_def)
  next
    case False
    then have P: "P = round_list s" by (simp add: P_def)
    then have "filter (\<lambda>w. word w |\<notin>| remembered_words s) (round_list s) = round_list s"
      using unrem by (simp only: filter_id_conv)
    then have "F = round_list s" by (simp only: F_def)
    with False P show ?thesis by (simp add: next_queue_def F_def)
  qed
  have len: "length P = length U"
    using mP by (metis size_mset)
  then obtain w rest where q: "P = w # rest"
    using assms(3) by (cases P) (auto simp: U_def)
  let ?s1 = "s\<lparr>round_list := rest, current := Some w, revealed := False\<rparr>"
  have 1: "get_new_word sh s = Inr ?s1"
    using nqP q by (simp add: get_new_word_eq)
  have "\<exists>s'. round_run steps ?s1 = Inr (map Some (take ?k (round_list ?s1)), s') \<and>
           round_list s' = drop ?k (round_list ?s1)"
  proof (rule round_run_queue[of ?s1 w])
    show "current ?s1 = Some w" by simp
    show "\<forall>x \<in> set (round_list ?s1). word x |\<notin>| remembered_words ?s1"
      using unrem q by simp
    have "distinct (map word P)" if "distinct (map word (words s))"
    proof -
      have "distinct (map word U)" using that by (simp add: U_def distinct_map_filter)
      moreover have "mset (map word P) = mset (map word U)"
        using mP by (metis mset_map)
      ultimately show ?thesis by (metis mset_eq_imp_distinct_iff)
    qed
    then show "list_all is_advance steps \<or> distinct (map word (w # round_list ?s1))"
      using assms(4) q by auto
    show "?k \<le> length (round_list ?s1)"
      using assms(3) len q by (simp add: U_def)
  qed
  then obtain s' where
    "round_run steps ?s1 = Inr (map Some (take ?k rest), s')" "round_list s' = drop ?k rest"
    by auto
  then have "round_run (Advance sh # steps) s = Inr (map Some (take (Suc ?k) P), s')"
    "round_list s' = drop (Suc ?k) P"
    using 1 q by (simp_all add: and_then_def)
  with mP show ?thesis
    unfolding P_def F_def U_def by blast
qed

theorem round_shows_each_entry_once_witness:
  "is_shuffle rev \<and> distinct (map word (words two_words)) \<and>
   round_run [Advance rev, Mark env0, Advance rev] (two_words\<lparr>round_list := []\<rparr>)
     = Inr ([Some dog, Some cat],
            marked\<lparr>progress_data := [str ''list1'' \<mapsto> [str ''dog'']],
                   remembered_words := {|str ''dog''|}, round_list := [],
                   disk := Json (Dict [str ''list1'' \<mapsto> [str ''dog'']])\<rparr>) \<and>
   mset [dog, cat] = mset [cat, dog] \<and>
   mset (round_list dup_fresh) = mset (words dup_fresh) \<and>
   round_run [Advance id, Advance id, Advance id] dup_fresh
     = Inr ([Some cat, Some cat_b, Some dog],
            dup_fresh\<lparr>current := Some dog, round_list := []\<rparr>)"
proof -
  let ?s = "two_words\<lparr>round_list := []\<rparr>"
  let ?steps = "[Mark env0, Advance rev]"
  have U: "filter (\<lambda>w. word w |\<notin>| remembered_words ?s) (words ?s) = [cat, dog]"
    "filter (\<lambda>w. word w |\<notin>| remembered_words ?s) (round_list ?s) = []"
    by (simp_all add: two_words_def)
  have h: "is_shuffle rev"
    "filter (\<lambda>w. word w |\<notin>| remembered_words ?s) (round_list ?s) = [] \<or>
     mset (round_list ?s) = mset (filter (\<lambda>w. word w |\<notin>| remembered_words ?s) (words ?s))"
    "length (filter is_advance ?steps)
       < length (filter (\<lambda>w. word w |\<notin>| remembered_words ?s) (words ?s))"
    "list_all is_advance ?steps \<or> distinct (map word (words ?s))"
    by (simp_all add: is_shuffle_def two_words_def cat_def dog_def)
  from round_shows_each_entry_once[OF h]
  obtain s' where s': "round_run [Advance rev, Mark env0, Advance rev] ?s
      = Inr ([Some dog, Some cat], s')"
    unfolding U by auto
  have l: "listing env0 {|str ''dog''|} = [str ''dog'']"
    by (simp add: env0_def sorted_list_of_fset.rep_eq)
  have 1: "round_run [Advance rev, Mark env0, Advance rev] ?s
     = Inr ([Some dog, Some cat],
            marked\<lparr>progress_data := [str ''list1'' \<mapsto> [str ''dog'']],
                   remembered_words := {|str ''dog''|}, round_list := [],
                   disk := Json (Dict [str ''list1'' \<mapsto> [str ''dog'']])\<rparr>)"
    using l
    by (simp add: and_then_def get_new_word_eq next_queue_def two_words_def marked_def
        on_key_press_def key_names save_progress_eq disk_after_def env0_def Let_def
        cat_def dog_def)
  have V: "filter (\<lambda>w. word w |\<notin>| remembered_words dup_fresh) (words dup_fresh) = [cat, cat_b, dog]"
    "filter (\<lambda>w. word w |\<notin>| remembered_words dup_fresh) (round_list dup_fresh) = [cat, cat_b, dog]"
    "round_list dup_fresh = [cat, cat_b, dog]"
    by (simp_all add: dup_fresh_def)
  have g: "is_shuffle id"
    "filter (\<lambda>w. word w |\<notin>| remembered_words dup_fresh) (round_list dup_fresh) = [] \<or>
     mset (round_list dup_fresh)
       = mset (filter (\<lambda>w. word w |\<notin>| remembered_words dup_fresh) (words dup_fresh))"
    "length (filter is_advance [Advance id, Advance id])
       < length (filter (\<lambda>w. word w |\<notin>| remembered_words dup_fresh) (words dup_fresh))"
    "list_all is_advance [Advance id, Advance id] \<or> distinct (map word (words dup_fresh))"
    by (simp_all add: is_shuffle_def dup_fresh_def)
  from round_shows_each_entry_once[OF g]
  obtain t' where t': "round_run [Advance id, Advance id, Advance id] dup_fresh
      = Inr ([Some cat, Some cat_b, Some dog], t')"
    unfolding V by auto
  have 2: "round_run [Advance id, Advance id, Advance id] dup_fresh
      = Inr ([Some cat, Some cat_b, Some dog], dup_fresh\<lparr>current := Some dog, round_list := []\<rparr>)"
    by (simp add: and_then_def get_new_word_eq next_queue_def dup_fresh_def)
  show ?thesis
    using s' t' 1 2 h(1) by (simp add: two_words_def dup_fresh_def cat_def dog_def)
qed

text \<open>
  On the list with \<open>cat\<close> in two rows, with the shuffle that keeps the order: \<open>main\<close>
  shows the first \<open>cat\<close>; the user marks it and advances. The purge drops the second
  \<open>cat\<close> row from the queue, \<open>dog\<close> is shown, and the queue is empty: the second row
  was in the rebuilt queue and was never \<open>current\<close>.
\<close>

theorem duplicate_dropped_counterexample:
  "main env_dup (initial Absent)
     = Inr (dup_fresh\<lparr>current := Some cat, round_list := [cat_b, dog]\<rparr>) \<and>
   run [(env_dup, Key space_key), (env_dup, Key return_key), (env_dup, Key return_key)]
       (dup_fresh\<lparr>current := Some cat, round_list := [cat_b, dog]\<rparr>) = Inr dup_end \<and>
   is_shuffle id \<and> remembered_words dup_fresh = {||} \<and> round_list dup_fresh = words dup_fresh \<and>
   round_run [Advance id, Mark env_dup, Advance id] dup_fresh = Inr ([Some cat, Some dog], dup_end) \<and>
   round_list dup_end = [] \<and> words dup_fresh = [cat, cat_b, dog] \<and> cat_b \<noteq> cat \<and> cat_b \<noteq> dog"
proof -
  have l: "listing env_dup {|str ''cat''|} = [str ''cat'']"
    by (simp add: env_dup_def env0_def sorted_list_of_fset.rep_eq)
  have 1: "run [(env_dup, Key space_key), (env_dup, Key return_key), (env_dup, Key return_key)]
       (dup_fresh\<lparr>current := Some cat, round_list := [cat_b, dog]\<rparr>) = Inr dup_end"
    using l
    by (simp add: and_then_def on_key_press_def key_names space_key_def return_key_def
        dup_fresh_def dup_end_def env_dup_def env0_def get_new_word_eq next_queue_def
        save_progress_eq disk_after_def Let_def cat_def cat_b_def dog_def)
  have 2: "round_run [Advance id, Mark env_dup, Advance id] dup_fresh
      = Inr ([Some cat, Some dog], dup_end)"
    using l
    by (simp add: and_then_def on_key_press_def key_names
        dup_fresh_def dup_end_def env_dup_def env0_def get_new_word_eq next_queue_def
        save_progress_eq disk_after_def Let_def cat_def cat_b_def dog_def)
  show ?thesis
    using 1 2 main_env_dup
    by (simp add: is_shuffle_def dup_fresh_def dup_end_def cat_def cat_b_def dog_def)
qed

section \<open>Skipping a word\<close>

lemma run_end_of_round:
  "run [(env0, Key return_key), (env0, Key return_key), (env0, Key return_key)] two_words
     = Inr end_of_round"
  by (simp add: and_then_def on_key_press_def key_names return_key_def two_words_def env0_def
      get_new_word_eq next_queue_def end_of_round_def dog_def)

lemma reachable_end_of_round: "reachable end_of_round"
  using reachable_run[OF reachable_two_words _ run_end_of_round] env_ok_env0 by simp

lemma reachable_revealed: "reachable (two_words\<lparr>revealed := True\<rparr>)"
proof -
  have "perform env0 (Key return_key) two_words = Inr (two_words\<lparr>revealed := True\<rparr>)"
    by (simp add: on_key_press_def key_names return_key_def two_words_def)
  then show ?thesis
    using reachable.step[OF reachable_two_words env_ok_env0] by blast
qed

text \<open>
  C5 (as amended). With \<open>current\<close> present and the definition revealed, the \<open>n\<close> key
  changes neither the remembered set nor the stored progress nor the file; if some
  entry of \<open>words\<close> is not remembered, the new \<open>current\<close> is present and not remembered;
  and if the round queue still holds an unremembered entry and the word strings of the
  list are pairwise distinct, the new \<open>current\<close> is a word other than the one skipped.
  Nothing is promised when the queue is exhausted: the fresh shuffle may put the
  skipped word first.
\<close>

theorem skip_does_not_remember:
  assumes "reachable s" and "current s = Some W" and "revealed s"
    and "lower (keysym ev) \<noteq> str ''q''" and "keysym ev \<noteq> str ''Return''"
    and "keysym ev \<noteq> str ''space''" and "lower (char ev) = str ''n''"
    and "is_shuffle (shuffle e)"
  shows "\<exists>s'. on_key_press e ev s = Inr s' \<and>
     remembered_words s' = remembered_words s \<and> progress_data s' = progress_data s \<and>
     disk s' = disk s \<and>
     (\<not> all_remembered s \<longrightarrow> (\<exists>c. current s' = Some c \<and> word c |\<notin>| remembered_words s)) \<and>
     (distinct (map word (words s)) \<and>
      filter (\<lambda>w. word w |\<notin>| remembered_words s) (round_list s) \<noteq> [] \<longrightarrow>
        (\<exists>c. current s' = Some c \<and> word c \<noteq> word W))"
proof -
  let ?q = "next_queue (shuffle e) s"
  let ?s' = "s\<lparr>round_list := tl ?q,
            current := (case ?q of [] \<Rightarrow> None | w # rest \<Rightarrow> Some w), revealed := False\<rparr>"
  have inv: "round_inv s" using assms(1) by (rule reachable_round_inv)
  have 1: "on_key_press e ev s = Inr ?s'"
    using assms(2-7) by (simp add: on_key_press_def get_new_word_eq)
  have a: "\<exists>c. current ?s' = Some c \<and> word c |\<notin>| remembered_words s" if "\<not> all_remembered s"
  proof -
    have "?q \<noteq> []"
      using that inv assms(8) by (simp add: next_queue_Nil round_inv_def queue_ok_def)
    then obtain w rest where q: "?q = w # rest" by (cases ?q) auto
    then have "w \<in> set ?q" by simp
    then have "word w |\<notin>| remembered_words s"
      using assms(8) next_queue_unremembered by blast
    with q show ?thesis by simp
  qed
  have b: "\<exists>c. current ?s' = Some c \<and> word c \<noteq> word W"
    if d: "distinct (map word (words s))"
      and ne: "filter (\<lambda>w. word w |\<notin>| remembered_words s) (round_list s) \<noteq> []"
  proof -
    have q: "?q = filter (\<lambda>w. word w |\<notin>| remembered_words s) (round_list s)"
      using ne by (simp add: next_queue_def)
    have "?q \<noteq> []" using ne q by simp
    then obtain w rest where w: "?q = w # rest" by (cases ?q) auto
    then have "w \<in> set (round_list s)"
      using q by (metis filter_is_subset list.set_intros(1) subsetD)
    moreover have "word W \<notin> word ` set (round_list s)"
      using inv d assms(2) by (simp add: round_inv_def)
    ultimately have "word w \<noteq> word W" by (metis image_eqI)
    with w show ?thesis by simp
  qed
  show ?thesis
    using 1 a b by (intro exI[of _ ?s']) simp
qed

theorem skip_does_not_remember_witness:
  "reachable (two_words\<lparr>revealed := True\<rparr>) \<and> is_shuffle (shuffle env0) \<and>
   distinct (map word (words two_words)) \<and>
   on_key_press env0 n_key (two_words\<lparr>revealed := True\<rparr>)
     = Inr (two_words\<lparr>current := Some dog, round_list := [], revealed := False\<rparr>) \<and>
   word dog \<noteq> word cat"
proof -
  let ?s = "two_words\<lparr>revealed := True\<rparr>"
  have h: "current ?s = Some cat" "revealed ?s"
    "lower (keysym n_key) \<noteq> str ''q''" "keysym n_key \<noteq> str ''Return''"
    "keysym n_key \<noteq> str ''space''" "lower (char n_key) = str ''n''"
    "is_shuffle (shuffle env0)"
    by (simp_all add: two_words_def n_key_def key_names env0_def is_shuffle_id)
  from skip_does_not_remember[OF reachable_revealed h]
  obtain s' where s': "on_key_press env0 n_key ?s = Inr s'"
    "remembered_words s' = remembered_words ?s"
    by blast
  have "on_key_press env0 n_key ?s
     = Inr (two_words\<lparr>current := Some dog, round_list := [], revealed := False\<rparr>)"
    by (simp add: on_key_press_def key_names n_key_def two_words_def env0_def
        get_new_word_eq next_queue_def dog_def)
  with s' h reachable_revealed show ?thesis
    by (simp add: two_words_def cat_def dog_def)
qed

text \<open>
  On the example at the end of its first round, \<open>dog\<close> on display with its definition:
  both words are unremembered, and the skip rebuilds the queue; when the shuffle
  reverses the list, \<open>dog\<close> is \<open>current\<close> again.
\<close>

theorem skip_at_round_end_counterexample:
  "reachable end_of_round \<and> current end_of_round = Some dog \<and> revealed end_of_round \<and>
   words end_of_round = [cat, dog] \<and> remembered_words end_of_round = {||} \<and>
   is_shuffle (shuffle env_rev) \<and>
   on_key_press env_rev n_key end_of_round
     = Inr (end_of_round\<lparr>current := Some dog, round_list := [cat], revealed := False\<rparr>)"
  using reachable_end_of_round
  by (simp add: on_key_press_def key_names n_key_def two_words_def env0_def env_rev_def
      get_new_word_eq next_queue_def end_of_round_def is_shuffle_def)

section \<open>Loading the word list\<close>

lemma row_entry_eq:
  assumes "row \<noteq> []"
  shows "\<lparr>word = strip (row ! 0),
          definition' = (if length row > 1 then strip (row ! 1) else [])\<rparr> = row_entry row"
proof (cases row)
  case Nil
  with assms show ?thesis by simp
next
  case (Cons first others)
  then show ?thesis by (cases others) (simp_all add: row_entry_def)
qed

lemma read_rows_Rows:
  "read_rows (map Row rows @ tail) acc
     = read_rows tail (acc @ map row_entry (filter (\<lambda>row. row \<noteq> []) rows))"
proof (induction rows arbitrary: acc)
  case Nil
  then show ?case by simp
next
  case (Cons row rows)
  show ?case
  proof (cases "row = []")
    case True
    then show ?thesis using Cons.IH by simp
  next
    case False
    have "read_rows (map Row (row # rows) @ tail) acc
        = read_rows (map Row rows @ tail) (acc @ [row_entry row])"
      using False row_entry_eq[OF False] by simp
    then show ?thesis using False Cons.IH[of "acc @ [row_entry row]"] by simp
  qed
qed

lemma strip_suffix:
  "dropWhile isspace s = strip s @ rev (takeWhile isspace (rev (dropWhile isspace s)))"
proof -
  let ?t = "dropWhile isspace s"
  have "rev (takeWhile isspace (rev ?t) @ dropWhile isspace (rev ?t)) = rev (rev ?t)"
    by (simp only: takeWhile_dropWhile_id)
  then show ?thesis
    by (simp only: rev_append rev_rev_ident strip_def)
qed

lemma strip_split:
  "\<exists>a b. s = a @ strip s @ b \<and> list_all isspace a \<and> list_all isspace b"
proof -
  let ?a = "takeWhile isspace s"
  let ?b = "rev (takeWhile isspace (rev (dropWhile isspace s)))"
  have "s = ?a @ dropWhile isspace s" by simp
  then have "s = ?a @ strip s @ ?b"
    using strip_suffix[of s] by simp
  moreover have "list_all isspace ?a" "list_all isspace ?b"
    by (auto simp: list_all_iff dest: set_takeWhileD)
  ultimately show ?thesis by blast
qed

lemma strip_ends:
  "strip s = [] \<or> (\<not> isspace (hd (strip s)) \<and> \<not> isspace (last (strip s)))"
proof (cases "strip s = []")
  case True
  then show ?thesis by simp
next
  case False
  let ?t = "dropWhile isspace s"
  let ?u = "dropWhile isspace (rev ?t)"
  have u: "?u \<noteq> []" using False by (simp add: strip_def)
  then have "\<not> isspace (hd ?u)" by (rule hd_dropWhile)
  then have l: "\<not> isspace (last (strip s))"
    using u by (simp add: strip_def last_rev)
  have t: "?t \<noteq> []"
  proof
    assume "?t = []"
    then have "?u = []" by (simp only: rev.simps(1) dropWhile.simps(1))
    with u show False by blast
  qed
  then have "\<not> isspace (hd ?t)" by (rule hd_dropWhile)
  moreover have "hd ?t = hd (strip s)"
    using strip_suffix[of s] False by (metis hd_append2)
  ultimately show ?thesis using l by simp
qed

text \<open>
  C8 (as amended). A missing file gives the empty list. A file that reads without an error gives one
  entry per row that has at least one column, in the order of the rows: the first
  column trimmed as the word, the second trimmed as the definition, the empty string
  when there is no second column; rows without a column (blank lines) are skipped.
  When the reader raises part-way, the entries of the rows before are returned.
  Trimming removes white space, and only white space, from both ends. A row whose
  first column is blank has a column and is kept, with the empty word.
\<close>

theorem load_words_rows:
  "load_words Missing = Inr [] \<and>
   load_words (Reader (map Row rows))
     = Inr (map row_entry (filter (\<lambda>row. row \<noteq> []) rows)) \<and>
   load_words (Reader (map Row rows @ Raise x # rest))
     = Inr (map row_entry (filter (\<lambda>row. row \<noteq> []) rows)) \<and>
   (\<exists>a b. s = a @ strip s @ b \<and> list_all isspace a \<and> list_all isspace b) \<and>
   (strip s = [] \<or> (\<not> isspace (hd (strip s)) \<and> \<not> isspace (last (strip s))))"
proof -
  have "read_rows (map Row rows) [] = (map row_entry (filter (\<lambda>row. row \<noteq> []) rows), None)"
    using read_rows_Rows[of rows "[]" "[]"] by simp
  moreover have "read_rows (map Row rows @ Raise x # rest) []
     = (map row_entry (filter (\<lambda>row. row \<noteq> []) rows), Some x)"
    using read_rows_Rows[of rows "Raise x # rest" "[]"] by simp
  ultimately show ?thesis
    using strip_split[of s] strip_ends[of s] by (simp add: load_words_def)
qed

theorem load_words_rows_witness:
  "load_words (Reader (map Row [[str ''cat'', [32, 29483]], [], [str ''dog'', [29399, 12288]], [[32]]]))
     = Inr [cat, dog, \<lparr>word = [], definition' = []\<rparr>] \<and>
   strip [32, 29483] = [29483] \<and> strip [29399, 12288] = [29399]"
  using load_words_rows[of "[[str ''cat'', [32, 29483]], [], [str ''dog'', [29399, 12288]], [[32]]]"]
  by (simp add: row_entry_def cat_def dog_def strip_def isspace_def str_def)

text \<open>
  A line holding one space, and a line holding one comma: \<open>csv.reader\<close> yields the rows
  \<open>[' ']\<close> and \<open>['', '']\<close>, which have no usable column, and \<open>load_words\<close> keeps each
  as an entry with the empty word.
\<close>

theorem blank_column_kept_counterexample:
  "load_words (Reader [Row [str '' '']]) = Inr [\<lparr>word = [], definition' = []\<rparr>] \<and>
   load_words (Reader [Row [[], []]]) = Inr [\<lparr>word = [], definition' = []\<rparr>]"
  by (simp add: load_words_def strip_def isspace_def str_def)

section \<open>Failures of loading and saving\<close>

lemma load_progress_eq:
  "load_progress s =
     Inr (s\<lparr>progress_data :=
            (case disk s of
               Json (Dict d) \<Rightarrow> (if d (current_list s) = None then d(current_list s \<mapsto> []) else d)
             | _ \<Rightarrow> [current_list s \<mapsto> []])\<rparr>)"
  by (simp add: load_progress_def exists_def json_load_def Let_def
      split: disk_file.splits json_root.splits)

text \<open>
  None of the three functions raises. \<open>load_progress\<close> always returns, changing only \<open>progress_data\<close>:
  to the dictionary of the file, with an empty array added for the active list when it
  has none, and to the dictionary holding just the active list with an empty array
  when the file is absent, cannot be loaded or has a root that is not an object.
  \<open>load_words\<close> always returns a list, the empty one for a missing file or one that
  cannot be opened. \<open>save_progress\<close> always returns and changes nothing but the file,
  which is untouched when it cannot be opened.
\<close>

lemma loading_and_saving_return:
  "(\<exists>pd. load_progress s = Inr (s\<lparr>progress_data := pd\<rparr>) \<and>
      pd = (case disk s of
              Json (Dict d) \<Rightarrow> (if d (current_list s) = None then d(current_list s \<mapsto> []) else d)
            | _ \<Rightarrow> [current_list s \<mapsto> []])) \<and>
   (\<exists>ws. load_words src = Inr ws) \<and>
   load_words Missing = Inr [] \<and> load_words (OpenError x) = Inr [] \<and>
   (\<exists>f. save_progress io s = Inr (s\<lparr>disk := f\<rparr>) \<and> (\<forall>y. io = OpenFails y \<longrightarrow> f = disk s))"
proof -
  have "save_progress io s = Inr (s\<lparr>disk := disk_after io s\<rparr>) \<and>
      (\<forall>y. io = OpenFails y \<longrightarrow> disk_after io s = disk s)"
    by (auto simp: save_progress_eq disk_after_def)
  then have "\<exists>f. save_progress io s = Inr (s\<lparr>disk := f\<rparr>) \<and> (\<forall>y. io = OpenFails y \<longrightarrow> f = disk s)"
    by blast
  moreover have "\<exists>ws. load_words src = Inr ws"
    by (simp add: load_words_eq)
  moreover have "load_words Missing = Inr []" "load_words (OpenError x) = Inr []"
    by (simp_all add: load_words_def)
  ultimately show ?thesis
    by (simp add: load_progress_eq)
qed

lemma loading_and_saving_return_example:
  "load_progress (initial (Unloadable ValueError))
     = Inr ((initial (Unloadable ValueError))\<lparr>progress_data := [str ''list1'' \<mapsto> []]\<rparr>) \<and>
   load_words (Reader [Row [str ''cat''], Raise ValueError])
     = Inr [\<lparr>word = str ''cat'', definition' = []\<rparr>] \<and>
   save_progress (OpenFails OSError) marked = Inr marked"
proof -
  let ?s = "initial (Unloadable ValueError)"
  from loading_and_saving_return[of ?s Missing OSError "OpenFails OSError"]
  obtain pd where pd: "load_progress ?s = Inr (?s\<lparr>progress_data := pd\<rparr>)"
    "pd = (case disk ?s of
              Json (Dict d) \<Rightarrow> (if d (current_list ?s) = None then d(current_list ?s \<mapsto> []) else d)
            | _ \<Rightarrow> [current_list ?s \<mapsto> []])"
    by blast
  have "pd = [str ''list1'' \<mapsto> []]"
    unfolding pd(2) by (simp add: initial_def)
  with pd(1) have 1: "load_progress ?s = Inr (?s\<lparr>progress_data := [str ''list1'' \<mapsto> []]\<rparr>)"
    by simp
  from loading_and_saving_return[of marked Missing OSError "OpenFails OSError"]
  obtain f where "save_progress (OpenFails OSError) marked = Inr (marked\<lparr>disk := f\<rparr>)"
    "f = disk marked"
    by blast
  then have 2: "save_progress (OpenFails OSError) marked = Inr marked" by simp
  have 3: "load_words (Reader [Row [str ''cat''], Raise ValueError])
      = Inr [\<lparr>word = str ''cat'', definition' = []\<rparr>]"
    by (simp add: load_words_def strip_def isspace_def str_def)
  show ?thesis using 1 2 3 by simp
qed

text \<open>
  C9. At start (\<open>list1\<close> active), with no progress file, with one that cannot be loaded
  and with one whose root is not an object, \<open>load_progress\<close> returns, and the
  dictionary it returns is not the empty one its docstring and the specification
  promise: it
  maps \<open>list1\<close> to the empty array.
\<close>

theorem load_progress_without_file:
  "load_progress (initial Absent)
     = Inr ((initial Absent)\<lparr>progress_data := [str ''list1'' \<mapsto> []]\<rparr>) \<and>
   load_progress (initial (Unloadable ValueError))
     = Inr ((initial (Unloadable ValueError))\<lparr>progress_data := [str ''list1'' \<mapsto> []]\<rparr>) \<and>
   load_progress (initial (Json NotDict))
     = Inr ((initial (Json NotDict))\<lparr>progress_data := [str ''list1'' \<mapsto> []]\<rparr>) \<and>
   [str ''list1'' \<mapsto> []] \<noteq> (Map.empty :: progress)"
  by (simp add: load_progress_eq initial_def)

section \<open>Saving, then loading\<close>

text \<open>
  C7 (as amended). \<open>save_progress\<close> followed by \<open>load_progress\<close> always returns. When
  the write succeeds, the store loaded is the store saved if that has an entry for the
  active list, and otherwise the store saved with an empty array added for the active
  list.
\<close>

theorem save_then_load:
  "\<exists>s1 s2. save_progress io s = Inr s1 \<and> load_progress s1 = Inr s2 \<and>
     (io = IoOk \<longrightarrow>
        progress_data s2 =
          (if progress_data s (current_list s) = None
           then (progress_data s)(current_list s \<mapsto> []) else progress_data s)) \<and>
     (io = IoOk \<and> progress_data s (current_list s) \<noteq> None \<longrightarrow>
        progress_data s2 = progress_data s)"
  by (cases io) (simp_all add: save_progress_def load_progress_eq)

theorem save_then_load_witness:
  "progress_data marked (current_list marked) \<noteq> None \<and>
   and_then (save_progress IoOk marked) load_progress = Inr marked"
proof -
  from save_then_load[of IoOk marked]
  obtain s1 s2 where s: "save_progress IoOk marked = Inr s1" "load_progress s1 = Inr s2"
    "progress_data s2 = progress_data marked"
    by (auto simp: marked_def)
  have 1: "s1 = marked" using s(1) by (simp add: save_progress_def marked_def)
  have "load_progress marked = Inr (marked\<lparr>progress_data := progress_data s2\<rparr>)"
    using s(2) unfolding 1 by (auto simp: load_progress_eq)
  then have "load_progress marked = Inr marked"
    unfolding s(3) by simp
  with s(1) 1 show ?thesis by (simp add: and_then_def marked_def)
qed

text \<open>
  A store with an entry for \<open>list2\<close> only, saved and loaded while \<open>list1\<close> is active,
  comes back with a second entry.
\<close>

theorem save_then_load_counterexample:
  "and_then (save_progress IoOk list2_only) load_progress
     = Inr (list2_only\<lparr>disk := Json (Dict [str ''list2'' \<mapsto> [[29483]]]),
                       progress_data := [str ''list2'' \<mapsto> [[29483]], str ''list1'' \<mapsto> []]\<rparr>) \<and>
   progress_data list2_only = [str ''list2'' \<mapsto> [[29483]]] \<and>
   [str ''list2'' \<mapsto> [[29483]], str ''list1'' \<mapsto> []]
     \<noteq> ([str ''list2'' \<mapsto> [[29483]]] :: progress)"
proof -
  have "[str ''list2'' \<mapsto> [[29483]], str ''list1'' \<mapsto> []]
     \<noteq> ([str ''list2'' \<mapsto> [[29483]]] :: progress)"
  proof
    assume "[str ''list2'' \<mapsto> [[29483]], str ''list1'' \<mapsto> []]
      = ([str ''list2'' \<mapsto> [[29483]]] :: progress)"
    then have "([str ''list2'' \<mapsto> [[29483]], str ''list1'' \<mapsto> []] :: progress) (str ''list1'')
      = ([str ''list2'' \<mapsto> [[29483]]] :: progress) (str ''list1'')"
      by (rule arg_cong)
    then show False by simp
  qed
  then show ?thesis
    by (simp add: and_then_def save_progress_def load_progress_eq list2_only_def initial_def)
qed

end
